theory Spec2Isabelle
  imports Complex_Main
begin

text \<open>
  project-zipper packs a project directory into a zip archive and leaves out what the
  project's \<^verbatim>\<open>.gitignore\<close> excludes. This theory embeds the option defaults of
  \<^verbatim>\<open>ProjectZipper\<close> (zipper.ts), the class \<^verbatim>\<open>GitignoreParser\<close> (gitignore-parser.ts, in
  the sources as unnamed/part_000), the types of types.ts (unnamed/part_001) and the
  directory walk of \<^verbatim>\<open>FileScanner\<close> (file-scanner.ts), and checks what the specification
  says of them.
\<close>

section \<open>Options (types.ts, zipper.ts)\<close>

text \<open>
  A JavaScript \<^verbatim>\<open>number\<close> as far as \<^verbatim>\<open>mergeDefaultOptions\<close> looks at it: the
  value is only tested for truthiness and passed on. \<open>NaN\<close> is what \<^verbatim>\<open>parseInt\<close>
  (cli.ts, line 20) yields on text that is not a number. The infinities are left out;
  they are truthy like every other non-zero number.
\<close>

datatype number = NaN | Num real

text \<open>
  \<^verbatim>\<open>interface ZipOptions\<close>: every field is optional, \<open>None\<close> is \<^verbatim>\<open>undefined\<close>.
\<close>

record ZipOptions =
  outputPath :: "string option"
  outputName :: "string option"
  includeHidden :: "bool option"
  compressionLevel :: "number option"

text \<open>\<^verbatim>\<open>Required<ZipOptions>\<close>: the same fields, all present.\<close>

record RequiredZipOptions =
  outputPath' :: string
  outputName' :: string
  includeHidden' :: bool
  compressionLevel' :: number

text \<open>
  \<^verbatim>\<open>a || b\<close> evaluates to \<^verbatim>\<open>a\<close> when \<^verbatim>\<open>a\<close> is truthy and to \<^verbatim>\<open>b\<close> otherwise.
  Falsy are \<^verbatim>\<open>undefined\<close>, the empty string, \<^verbatim>\<open>false\<close>, zero and \<^verbatim>\<open>NaN\<close>.
\<close>

fun or_string :: "string option \<Rightarrow> string \<Rightarrow> string" where
  "or_string None d = d"
| "or_string (Some s) d = (if s = [] then d else s)"

fun or_boolean :: "bool option \<Rightarrow> bool \<Rightarrow> bool" where
  "or_boolean None d = d"
| "or_boolean (Some b) d = (if b then b else d)"

fun or_number :: "number option \<Rightarrow> number \<Rightarrow> number" where
  "or_number None d = d"
| "or_number (Some NaN) d = d"
| "or_number (Some (Num x)) d = (if x = 0 then d else Num x)"

definition mergeDefaultOptions :: "ZipOptions \<Rightarrow> RequiredZipOptions" where
  "mergeDefaultOptions options =
     \<lparr> outputPath' = or_string (outputPath options) ''./dist'',
       outputName' = or_string (outputName options) ''project.zip'',
       includeHidden' = or_boolean (includeHidden options) False,
       compressionLevel' = or_number (compressionLevel options) (Num 6) \<rparr>"

section \<open>The file system as the scanner sees it\<close>

text \<open>
  An absolute, normalised path is the list of its segments below the file system's
  root; \<^verbatim>\<open>/home/u/proj\<close> is \<open>[''home'', ''u'', ''proj'']\<close>.
\<close>

type_synonym path = "string list"

datatype fs_error = ENOENT | ENOTDIR | EACCES | EISDIR | ENXIO

text \<open>
  What is found at a path, in terms of the two calls the scanner makes on it.
  \<^item> \<open>File c\<close>: a regular file: \<^verbatim>\<open>stat\<close> succeeds, \<^verbatim>\<open>isFile()\<close> is true and
    \<^verbatim>\<open>isDirectory()\<close> is false; \<open>c\<close> is the content.
  \<^item> \<open>Socket\<close>: an entry that is neither a regular file nor a directory, here a Unix
    socket: \<^verbatim>\<open>stat\<close> succeeds, \<^verbatim>\<open>isFile()\<close> and \<^verbatim>\<open>isDirectory()\<close> are both false,
    and opening it fails. A FIFO or a device looks the same to \<^verbatim>\<open>stat\<close>.
  \<^item> \<open>Dir es\<close>: \<^verbatim>\<open>stat\<close> succeeds, \<^verbatim>\<open>isDirectory()\<close> is true, and \<^verbatim>\<open>readdir\<close>
    lists the names of \<open>es\<close> in this order; each name comes with what is found there.
  \<^item> \<open>NoRead e\<close>: a directory that \<^verbatim>\<open>stat\<close> reaches but \<^verbatim>\<open>readdir\<close> cannot list
    (permission denied).
  \<^item> \<open>NoStat e\<close>: \<^verbatim>\<open>stat\<close> fails with \<open>e\<close>: nothing is there (a path that does not
    exist, an entry deleted after it was listed, a dangling link) or it cannot be
    reached.
\<close>

datatype node =
    File string
  | Socket
  | Dir "(string \<times> node) list"
  | NoRead fs_error
  | NoStat fs_error

text \<open>\<^verbatim>\<open>fs.Stats\<close>, with the two tests that tell the kinds of entry apart.\<close>

record Stats =
  isDirectory :: bool
  isFile :: bool

fun readdir :: "node \<Rightarrow> fs_error + (string \<times> node) list" where
  "readdir (Dir es) = Inr es"
| "readdir (File c) = Inl ENOTDIR"
| "readdir Socket = Inl ENOTDIR"
| "readdir (NoRead e) = Inl e"
| "readdir (NoStat e) = Inl e"

fun stat :: "node \<Rightarrow> fs_error + Stats" where
  "stat (File c) = Inr \<lparr> isDirectory = False, isFile = True \<rparr>"
| "stat Socket = Inr \<lparr> isDirectory = False, isFile = False \<rparr>"
| "stat (Dir es) = Inr \<lparr> isDirectory = True, isFile = False \<rparr>"
| "stat (NoRead e) = Inr \<lparr> isDirectory = True, isFile = False \<rparr>"
| "stat (NoStat e) = Inl e"

fun existsSync :: "node \<Rightarrow> bool" where
  "existsSync (NoStat e) = False"
| "existsSync nd = True"

text \<open>\<^verbatim>\<open>fs.readFileSync(path, 'utf8')\<close>: the content of a file, an exception for anything else.\<close>

fun readFileSync :: "node \<Rightarrow> fs_error + string" where
  "readFileSync (File c) = Inr c"
| "readFileSync Socket = Inl ENXIO"
| "readFileSync (Dir es) = Inl EISDIR"
| "readFileSync (NoRead e) = Inl EISDIR"
| "readFileSync (NoStat e) = Inl e"

text \<open>
  What is found at \<^verbatim>\<open>path.join(dir, name)\<close>, given what is found at \<open>dir\<close>. Nothing is
  known of the entries of a directory that cannot be listed; they count as out of reach.
\<close>

definition entry :: "node \<Rightarrow> string \<Rightarrow> node" where
  "entry dir name =
     (case dir of
        Dir es \<Rightarrow> (case map_of es name of Some c \<Rightarrow> c | None \<Rightarrow> NoStat ENOENT)
      | File c \<Rightarrow> NoStat ENOTDIR
      | Socket \<Rightarrow> NoStat ENOTDIR
      | NoRead e \<Rightarrow> NoStat e
      | NoStat e \<Rightarrow> NoStat e)"

subsection \<open>Paths\<close>

text \<open>
  \<^verbatim>\<open>path.join(dir, item)\<close> for a normalised \<open>dir\<close> and an entry name \<open>item\<close> as
  \<^verbatim>\<open>readdir\<close> returns it (not empty, no separator, neither \<^verbatim>\<open>.\<close> nor \<^verbatim>\<open>..\<close>):
  one more segment.
\<close>

definition path_join :: "path \<Rightarrow> string \<Rightarrow> path" where
  "path_join dir item = dir @ [item]"

text \<open>
  \<^verbatim>\<open>path.relative(from, to)\<close> on absolute normalised paths: the common prefix is
  dropped, every segment left of \<open>from\<close> becomes \<^verbatim>\<open>..\<close>, the rest of \<open>to\<close> follows.
\<close>

fun relative_segments :: "path \<Rightarrow> path \<Rightarrow> string list" where
  "relative_segments (f # fs) (t # ts) =
     (if f = t then relative_segments fs ts
      else replicate (length (f # fs)) ''..'' @ (t # ts))"
| "relative_segments [] ts = ts"
| "relative_segments fs [] = replicate (length fs) ''..''"

text \<open>Segments written as one string, with the separator \<^verbatim>\<open>/\<close> between them.\<close>

fun path_string :: "string list \<Rightarrow> string" where
  "path_string [] = []"
| "path_string [s] = s"
| "path_string (s # t # ss) = s @ ''/'' @ path_string (t # ss)"

definition path_relative :: "path \<Rightarrow> path \<Rightarrow> string" where
  "path_relative from to = path_string (relative_segments from to)"

section \<open>The matcher behind GitignoreParser\<close>

text \<open>
  \<^verbatim>\<open>GitignoreParser\<close> hands every question to an instance of the package \<^verbatim>\<open>ignore\<close>
  (\<^verbatim>\<open>ignore()\<close>, \<^verbatim>\<open>add\<close>, \<^verbatim>\<open>ignores\<close>), whose code is not part of the sources. The
  definitions of this section stand for that package and follow the specification's
  account of the matcher (its sections 3, 4.1, 6 and 8). A rule is the record
  \<^verbatim>\<open>GitignoreRule\<close> of types.ts, whose field \<open>directory\<close> is the specification's
  \<^verbatim>\<open>directoryOnly\<close>.
\<close>

record GitignoreRule =
  pattern :: string
  negation :: bool
  directory :: bool

subsection \<open>Parsing the rule file\<close>

text \<open>The pieces of a string between occurrences of a separator (never an empty list).\<close>

fun split_on :: "char \<Rightarrow> string \<Rightarrow> string list" where
  "split_on sep [] = [[]]"
| "split_on sep (c # cs) =
     (if c = sep then [] # split_on sep cs
      else (case split_on sep cs of [] \<Rightarrow> [[c]] | s # ss \<Rightarrow> (c # s) # ss))"

text \<open>
  Modelled from the spec: the line parser of the package \<^verbatim>\<open>ignore\<close>. "Blank lines and
  lines beginning with \<^verbatim>\<open>#\<close> are not rules"; a blank line holds nothing but spaces and
  tabs.
\<close>

definition blank :: "string \<Rightarrow> bool" where
  "blank l = list_all (\<lambda>c. c = CHR '' '' \<or> c = CHR 0x09) l"

text \<open>
  Modelled from the spec: the line parser of the package \<^verbatim>\<open>ignore\<close>. "A trailing \<^verbatim>\<open>/\<close>
  (not counting an escaped trailing slash) sets directoryOnly"; the escape character
  is the backslash, \<open>CHR 0x5C\<close>.
\<close>

definition directory_suffix :: "string \<Rightarrow> bool" where
  "directory_suffix l =
     (case rev l of
        [] \<Rightarrow> False
      | c # before \<Rightarrow> c = CHR ''/'' \<and> (case before of [] \<Rightarrow> True | b # _ \<Rightarrow> b \<noteq> CHR 0x5C))"

text \<open>
  Modelled from the spec: the line parser of the package \<^verbatim>\<open>ignore\<close>. "Each non-blank,
  non-comment line becomes one rule; leading \<^verbatim>\<open>!\<close> sets negation and is stripped before
  pattern extraction; a trailing \<^verbatim>\<open>/\<close> sets directoryOnly and is stripped."
\<close>

definition parseLine :: "string \<Rightarrow> GitignoreRule option" where
  "parseLine l =
     (if blank l \<or> hd l = CHR ''#'' then None
      else
        let neg = (hd l = CHR ''!'');
            l1 = (if neg then tl l else l);
            dir = directory_suffix l1;
            pat = (if dir then butlast l1 else l1)
        in Some \<lparr> pattern = pat, negation = neg, directory = dir \<rparr>)"

text \<open>
  Modelled from the spec: the rule set the package \<^verbatim>\<open>ignore\<close> builds from lines, "an
  ordered Rule sequence" in file order.
\<close>

definition rules_of_lines :: "string list \<Rightarrow> GitignoreRule list" where
  "rules_of_lines ls = List.map_filter parseLine ls"

text \<open>
  Modelled from the spec: the rule set the package \<^verbatim>\<open>ignore\<close> builds from the text of
  the rule file, "one rule per line"; lines end at the line feed, \<open>CHR 0x0A\<close>.
\<close>

definition parseRules :: "string \<Rightarrow> GitignoreRule list" where
  "parseRules content = rules_of_lines (split_on (CHR 0x0A) content)"

subsection \<open>Globs\<close>

text \<open>
  Modelled from the spec: the glob matcher of the package \<^verbatim>\<open>ignore\<close>, "character classes
  \<^verbatim>\<open>[...]\<close> supported". \<open>class_end\<close> finds the closing bracket: the body of the class and
  what follows it. The body lists characters and ranges \<^verbatim>\<open>a-z\<close>; a leading \<^verbatim>\<open>!\<close>
  complements the class.
\<close>

fun class_end :: "string \<Rightarrow> (string \<times> string) option" where
  "class_end [] = None"
| "class_end (c # cs) =
     (if c = CHR '']'' then Some ([], cs)
      else (case class_end cs of None \<Rightarrow> None | Some (body, rest) \<Rightarrow> Some (c # body, rest)))"

fun class_items :: "string \<Rightarrow> (char \<times> char) list" where
  "class_items (lo # m # hi # cs) =
     (if m = CHR ''-'' then (lo, hi) # class_items cs else (lo, lo) # class_items (m # hi # cs))"
| "class_items (c # cs) = (c, c) # class_items cs"
| "class_items [] = []"

definition in_class :: "string \<Rightarrow> char \<Rightarrow> bool" where
  "in_class body c =
     (let neg = (body \<noteq> [] \<and> hd body = CHR ''!'');
          items = class_items (if neg then tl body else body);
          hit = list_ex (\<lambda>(lo, hi). (of_char lo :: nat) \<le> of_char c \<and> (of_char c :: nat) \<le> of_char hi) items
      in if neg then \<not> hit else hit)"

lemma class_end_length: "class_end cs = Some (body, rest) \<Longrightarrow> length rest < length cs"
  by (induction cs arbitrary: body rest) (auto split: if_splits option.splits)

text \<open>
  Modelled from the spec: the glob matcher of the package \<^verbatim>\<open>ignore\<close>, within one path
  segment. "\<^verbatim>\<open>*\<close> matches within a segment, \<^verbatim>\<open>?\<close> matches one character, character
  classes \<^verbatim>\<open>[...]\<close> supported"; a backslash takes the next character literally, and
  "malformed pattern syntax is treated permissively (pass-through as a literal)": a
  bracket that is never closed and a backslash at the end stand for themselves.
\<close>

function glob_segment :: "string \<Rightarrow> string \<Rightarrow> bool" where
  "glob_segment [] s = (s = [])"
| "glob_segment (p # ps) s =
     (if p = CHR ''*'' then
        glob_segment ps s \<or> (case s of [] \<Rightarrow> False | c # cs \<Rightarrow> glob_segment (p # ps) cs)
      else if p = CHR ''?'' then
        (case s of [] \<Rightarrow> False | c # cs \<Rightarrow> glob_segment ps cs)
      else if p = CHR ''['' then
        (case class_end ps of
           None \<Rightarrow> (case s of [] \<Rightarrow> False | c # cs \<Rightarrow> c = p \<and> glob_segment ps cs)
         | Some (body, rest) \<Rightarrow> (case s of [] \<Rightarrow> False | c # cs \<Rightarrow> in_class body c \<and> glob_segment rest cs))
      else if p = CHR 0x5C then
        (case ps of
           [] \<Rightarrow> s = [p]
         | q # qs \<Rightarrow> (case s of [] \<Rightarrow> False | c # cs \<Rightarrow> c = q \<and> glob_segment qs cs))
      else (case s of [] \<Rightarrow> False | c # cs \<Rightarrow> c = p \<and> glob_segment ps cs))"
  by pat_completeness auto
termination
  by (relation "measure (\<lambda>(p, s). length p + length s)") (auto dest: class_end_length)

text \<open>
  Modelled from the spec: the glob matcher of the package \<^verbatim>\<open>ignore\<close>, over the segments
  of a path. "\<^verbatim>\<open>**\<close> matches across segments": a segment \<^verbatim>\<open>**\<close> of the pattern stands
  for any number of segments of the path, every other segment for exactly one.
\<close>

fun glob_path :: "string list \<Rightarrow> string list \<Rightarrow> bool" where
  "glob_path [] p = (p = [])"
| "glob_path (g # gs) p =
     (if g = ''**'' then
        glob_path gs p \<or> (case p of [] \<Rightarrow> False | s # ss \<Rightarrow> glob_path (g # gs) ss)
      else (case p of [] \<Rightarrow> False | s # ss \<Rightarrow> glob_segment g s \<and> glob_path gs ss))"

text \<open>
  Modelled from the spec: how the package \<^verbatim>\<open>ignore\<close> anchors a pattern, "anchoring
  semantics derived from leading/embedded \<^verbatim>\<open>/\<close>". A pattern with a separator is
  measured from the project root (\<^verbatim>\<open>/node_modules\<close> "excludes \<^verbatim>\<open>node_modules\<close> only at
  the root"); one without "excludes at every depth": it is matched against the last
  segment of the path.
\<close>

definition anchored :: "string \<Rightarrow> bool" where
  "anchored pat = (CHR ''/'' \<in> set pat)"

definition pattern_segments :: "string \<Rightarrow> string list" where
  "pattern_segments pat = (case split_on (CHR ''/'') pat of [] # segs \<Rightarrow> segs | segs \<Rightarrow> segs)"

text \<open>
  Modelled from the spec: when a rule of the package \<^verbatim>\<open>ignore\<close> matches a candidate, a
  path given by its segments with its kind (\<open>isDir\<close>). "directoryOnly rules match only
  when the candidate path is known to be a directory."
\<close>

definition rule_matches :: "GitignoreRule \<Rightarrow> string list \<Rightarrow> bool \<Rightarrow> bool" where
  "rule_matches rule p isDir =
     ((isDir \<or> \<not> directory rule) \<and>
      (if anchored (pattern rule) then glob_path (pattern_segments (pattern rule)) p
       else p \<noteq> [] \<and> glob_segment (pattern rule) (last p)))"

subsection \<open>The verdict\<close>

text \<open>
  Modelled from the spec: the ancestor directories of a path that the verdict of the
  package \<^verbatim>\<open>ignore\<close> looks at, from the topmost down; the path itself is not among them.
\<close>

fun ancestors :: "string list \<Rightarrow> string list list" where
  "ancestors [] = []"
| "ancestors [s] = []"
| "ancestors (s # t # ss) = [s] # map ((#) s) (ancestors (t # ss))"

text \<open>
  Modelled from the spec: one step of the verdict of the package \<^verbatim>\<open>ignore\<close>. "Each rule
  that matches updates a running verdict: a non-negated match sets verdict = excluded; a
  negated match sets verdict = included, provided no ancestor directory of the path is
  excluded"; \<open>inside\<close> says that one is.
\<close>

definition update_verdict :: "string list \<Rightarrow> bool \<Rightarrow> bool \<Rightarrow> bool \<Rightarrow> GitignoreRule \<Rightarrow> bool" where
  "update_verdict p isDir inside verdict rule =
     (if rule_matches rule p isDir then
        (if negation rule then (if inside then verdict else False) else True)
      else verdict)"

lemma ancestors_length: "a \<in> set (ancestors p) \<Longrightarrow> length a < length p"
  by (induction p arbitrary: a rule: ancestors.induct) auto

text \<open>
  Modelled from the spec: \<^verbatim>\<open>isExcluded\<close>, the verdict of the package \<^verbatim>\<open>ignore\<close> on a path
  and its kind. "Evaluate rules in file order; result is the final verdict after all
  rules are evaluated, defaulting to included if no rule matches." What lies inside an
  excluded directory starts out excluded, which no negated rule changes ("a negated
  pattern cannot re-include a file whose parent directory was itself excluded"; rules
  \<^verbatim>\<open>build/\<close>, \<^verbatim>\<open>!build/keep.txt\<close> exclude \<^verbatim>\<open>build/keep.txt\<close>). An ancestor is a directory.
  The two equations say the same of the empty path and of any other.
\<close>

function isExcluded :: "GitignoreRule list \<Rightarrow> string list \<Rightarrow> bool \<Rightarrow> bool" where
  "isExcluded rules [] isDir = foldl (update_verdict [] isDir False) False rules"
| "isExcluded rules (s # ss) isDir =
     (let inside = list_ex (\<lambda>a. isExcluded rules a True) (ancestors (s # ss))
      in foldl (update_verdict (s # ss) isDir inside) inside rules)"
  by pat_completeness auto
termination
  by (relation "measure (\<lambda>(rules, p, isDir). length p)") (auto dest: ancestors_length)

text \<open>
  Modelled from the spec: \<^verbatim>\<open>ignores(path)\<close> of the package \<^verbatim>\<open>ignore\<close>. The specification
  wants the matcher "queried with a path+kind pair"; \<^verbatim>\<open>ignores\<close> receives one string,
  which does not say what kind of entry it names: the candidate is not known to be a
  directory.
\<close>

definition ignores :: "GitignoreRule list \<Rightarrow> string \<Rightarrow> bool" where
  "ignores rules filePath = isExcluded rules (split_on (CHR ''/'') filePath) False"

text \<open>
  Modelled from the spec: \<^verbatim>\<open>add(content)\<close> of the package \<^verbatim>\<open>ignore\<close>: the rules of the
  text, after those already there.
\<close>

definition add :: "GitignoreRule list \<Rightarrow> string \<Rightarrow> GitignoreRule list" where
  "add rules content = rules @ parseRules content"

section \<open>GitignoreParser (gitignore-parser.ts)\<close>

text \<open>The one field of the class: the instance of \<^verbatim>\<open>ignore\<close>, that is, its rules.\<close>

record GitignoreParser =
  ig :: "GitignoreRule list"

text \<open>
  \<^verbatim>\<open>loadGitignore(projectRoot)\<close>, with \<open>projectRoot\<close> what the file system holds at the
  project root. \<^verbatim>\<open>readFileSync\<close> is not guarded: its exception leaves the constructor.
\<close>

definition loadGitignore :: "node \<Rightarrow> GitignoreParser \<Rightarrow> fs_error + GitignoreParser" where
  "loadGitignore projectRoot this =
     (let gitignorePath = entry projectRoot ''.gitignore''
      in if existsSync gitignorePath then
           (case readFileSync gitignorePath of
              Inl e \<Rightarrow> Inl e
            | Inr gitignoreContent \<Rightarrow> Inr (this \<lparr> ig := add (ig this) gitignoreContent \<rparr>))
         else Inr this)"

text \<open>The constructor: \<^verbatim>\<open>this.ig = ignore()\<close>, an instance without rules, then the load.\<close>

definition new_GitignoreParser :: "node \<Rightarrow> fs_error + GitignoreParser" where
  "new_GitignoreParser projectRoot = loadGitignore projectRoot \<lparr> ig = [] \<rparr>"

definition shouldIgnore :: "GitignoreParser \<Rightarrow> string \<Rightarrow> bool" where
  "shouldIgnore this filePath = ignores (ig this) filePath"

section \<open>FileScanner (file-scanner.ts)\<close>

text \<open>
  What a scan does to the outside, in order: the directories it lists, the paths it
  stats, and the strings it passes to \<^verbatim>\<open>shouldIgnore\<close>.
\<close>

datatype event = Readdir path | Stat path | Query string

text \<open>
  The state a scan works on: the array \<^verbatim>\<open>files\<close> that \<^verbatim>\<open>scanDirectory\<close> pushes to,
  and the trace of events.
\<close>

record scan_state =
  files :: "path list"
  trace :: "event list"

definition emit :: "event \<Rightarrow> scan_state \<Rightarrow> scan_state" where
  "emit ev st = st \<lparr> trace := trace st @ [ev] \<rparr>"

definition push :: "path \<Rightarrow> scan_state \<Rightarrow> scan_state" where
  "push p st = st \<lparr> files := files st @ [p] \<rparr>"

lemma size_readdir: "readdir nd = Inr items \<Longrightarrow> size_list (size_prod (\<lambda>_. 0) size) items < size nd"
  by (cases nd) auto

text \<open>
  \<^verbatim>\<open>scanDirectory(dir, files)\<close>, with \<open>nd\<close> what the file system holds at \<open>dir\<close>, and
  \<open>scanItems\<close> its \<^verbatim>\<open>for (const item of items)\<close> loop. \<open>ign\<close> is
  \<^verbatim>\<open>this.gitignoreParser.shouldIgnore\<close>. The
  result is the state reached and the exception that ended the call, if one did: a
  rejected \<^verbatim>\<open>readdir\<close> or \<^verbatim>\<open>stat\<close> is not caught anywhere in the class.
  \<^verbatim>\<open>readdir\<close> gives the names; the model keeps with each name what \<^verbatim>\<open>stat\<close> and
  \<^verbatim>\<open>readdir\<close> will find at \<^verbatim>\<open>path.join(dir, item)\<close>.
\<close>

function scanDirectory :: "(string \<Rightarrow> bool) \<Rightarrow> path \<Rightarrow> path \<Rightarrow> node \<Rightarrow> scan_state \<Rightarrow> scan_state \<times> fs_error option"
  and scanItems :: "(string \<Rightarrow> bool) \<Rightarrow> path \<Rightarrow> path \<Rightarrow> (string \<times> node) list \<Rightarrow> scan_state \<Rightarrow> scan_state \<times> fs_error option"
where
  "scanDirectory ign projectRoot dir nd st =
     (case readdir nd of
        Inl e \<Rightarrow> (emit (Readdir dir) st, Some e)
      | Inr items \<Rightarrow> scanItems ign projectRoot dir items (emit (Readdir dir) st))"
| "scanItems ign projectRoot dir [] st = (st, None)"
| "scanItems ign projectRoot dir ((item, child) # rest) st =
     (let fullPath = path_join dir item;
          relativePath = path_relative projectRoot fullPath;
          st1 = emit (Query relativePath) st
      in if ign relativePath then scanItems ign projectRoot dir rest st1
         else
           (case stat child of
              Inl e \<Rightarrow> (emit (Stat fullPath) st1, Some e)
            | Inr stats \<Rightarrow>
                if isDirectory stats then
                  (case scanDirectory ign projectRoot fullPath child (emit (Stat fullPath) st1) of
                     (st2, Some e) \<Rightarrow> (st2, Some e)
                   | (st2, None) \<Rightarrow> scanItems ign projectRoot dir rest st2)
                else scanItems ign projectRoot dir rest (push fullPath (emit (Stat fullPath) st1))))"
  by pat_completeness auto
termination
  by (relation "measure (\<lambda>x. case x of
         Inl (ign, projectRoot, dir, nd, st) \<Rightarrow> size nd
       | Inr (ign, projectRoot, dir, items, st) \<Rightarrow> size_list (size_prod (\<lambda>_. 0) size) items)")
     (auto dest: size_readdir)

declare scanDirectory.simps [simp del]

text \<open>
  \<^verbatim>\<open>scanFiles()\<close>: a fresh array, one \<^verbatim>\<open>scanDirectory\<close> from the project root, and
  the array as the result; an exception of \<^verbatim>\<open>scanDirectory\<close> rejects the promise
  (\<open>Inl\<close>). The first component is the trace, starting from \<open>tr\<close>, what happened
  before the call.
\<close>

definition scanFiles :: "(string \<Rightarrow> bool) \<Rightarrow> path \<Rightarrow> node \<Rightarrow> event list \<Rightarrow> event list \<times> (fs_error + path list)" where
  "scanFiles ign projectRoot nd tr =
     (case scanDirectory ign projectRoot projectRoot nd \<lparr> files = [], trace = tr \<rparr> of
        (st, Some e) \<Rightarrow> (trace st, Inl e)
      | (st, None) \<Rightarrow> (trace st, Inr (files st)))"

section \<open>ProjectZipper.validateProject (zipper.ts)\<close>



section \<open>Notions the properties are stated with\<close>

text \<open>
  \<open>node_at nd rel c\<close>: walking down from \<open>nd\<close> along the names \<open>rel\<close> leads to \<open>c\<close>. A
  listing that holds a name twice leads to both.
\<close>

fun node_at :: "node \<Rightarrow> string list \<Rightarrow> node \<Rightarrow> bool" where
  "node_at nd [] c = (c = nd)"
| "node_at nd (s # ss) c = (case nd of Dir es \<Rightarrow> list_ex (\<lambda>(n, k). n = s \<and> node_at k ss c) es | _ \<Rightarrow> False)"

text \<open>
  \<open>unignored ign pre rel\<close>: on the way down from the relative path \<open>pre\<close> along \<open>rel\<close>,
  \<open>ign\<close> holds of no path passed, the last one included.
\<close>

fun unignored :: "(string \<Rightarrow> bool) \<Rightarrow> string list \<Rightarrow> string list \<Rightarrow> bool" where
  "unignored ign pre [] = True"
| "unignored ign pre (s # ss) = (\<not> ign (path_string (pre @ [s])) \<and> unignored ign (pre @ [s]) ss)"

text \<open>An entry that \<^verbatim>\<open>stat\<close> cannot reach, or a directory that \<^verbatim>\<open>readdir\<close> cannot list.\<close>

definition fails :: "node \<Rightarrow> bool" where
  "fails c = (case stat c of Inl e \<Rightarrow> True | Inr s \<Rightarrow> isDirectory s \<and> isl (readdir c))"

text \<open>
  The call of the walker that fails on the entry \<open>c\<close> found at the path \<open>p\<close>, with its
  error: the \<^verbatim>\<open>stat\<close> of the entry or, for a directory, the \<^verbatim>\<open>readdir\<close> that follows.
\<close>

definition rejects :: "node \<Rightarrow> path \<Rightarrow> (event \<times> fs_error) option" where
  "rejects c p =
     (case stat c of
        Inl e \<Rightarrow> Some (Stat p, e)
      | Inr stats \<Rightarrow>
          if isDirectory stats then
            (case readdir c of Inl e \<Rightarrow> Some (Readdir p, e) | Inr items \<Rightarrow> None)
          else None)"

text \<open>
  The two kinds an entry can be told to have: \<open>nondirectory\<close> is the test the scanner
  makes before it pushes a path, \<open>regular\<close> is \<^verbatim>\<open>isFile()\<close>, which the scanner never calls.
\<close>

definition nondirectory :: "node \<Rightarrow> bool" where
  "nondirectory c = (case stat c of Inl e \<Rightarrow> False | Inr s \<Rightarrow> \<not> isDirectory s)"

definition regular :: "node \<Rightarrow> bool" where
  "regular c = (case stat c of Inl e \<Rightarrow> False | Inr s \<Rightarrow> isFile s)"

text \<open>A tree in which every \<^verbatim>\<open>stat\<close> and every \<^verbatim>\<open>readdir\<close> succeeds.\<close>

fun readable :: "node \<Rightarrow> bool" where
  "readable (File c) = True"
| "readable Socket = True"
| "readable (Dir es) = list_all (\<lambda>c. readable c) (map snd es)"
| "readable (NoRead e) = False"
| "readable (NoStat e) = False"

text \<open>What a file system guarantees of a listing: no name twice.\<close>

fun distinct_names :: "node \<Rightarrow> bool" where
  "distinct_names (Dir es) = (distinct (map fst es) \<and> list_all (\<lambda>c. distinct_names c) (map snd es))"
| "distinct_names nd = True"

text \<open>
  What a file system guarantees of a name: it is not empty, holds no separator and is
  neither \<^verbatim>\<open>.\<close> nor \<^verbatim>\<open>..\<close>.
\<close>

definition valid_name :: "string \<Rightarrow> bool" where
  "valid_name s = (s \<noteq> [] \<and> CHR ''/'' \<notin> set s \<and> s \<noteq> ''.'' \<and> s \<noteq> ''..'')"

fun valid_names :: "node \<Rightarrow> bool" where
  "valid_names (Dir es) = (list_all valid_name (map fst es) \<and> list_all (\<lambda>c. valid_names c) (map snd es))"
| "valid_names nd = True"

text \<open>The path an event reads from the file system, and the strings a trace asks the matcher about.\<close>

fun touched :: "event \<Rightarrow> path option" where
  "touched (Readdir d) = Some d"
| "touched (Stat d) = Some d"
| "touched (Query q) = None"

fun queries :: "event list \<Rightarrow> string list" where
  "queries [] = []"
| "queries (Query q # evs) = q # queries evs"
| "queries (ev # evs) = queries evs"

text \<open>The last rule, in file order, that matches a path; and whether a path lies inside an excluded directory.\<close>

fun last_match :: "GitignoreRule list \<Rightarrow> string list \<Rightarrow> bool \<Rightarrow> GitignoreRule option" where
  "last_match [] p isDir = None"
| "last_match (rule # rules) p isDir =
     (case last_match rules p isDir of
        Some m \<Rightarrow> Some m
      | None \<Rightarrow> if rule_matches rule p isDir then Some rule else None)"

definition inside_excluded :: "GitignoreRule list \<Rightarrow> string list \<Rightarrow> bool" where
  "inside_excluded rules p = list_ex (\<lambda>a. isExcluded rules a True) (ancestors p)"

text \<open>
  The same tree with its directories listed in another order: two neighbours of a
  listing change places, anywhere in the tree, any number of times.
\<close>

inductive relisted :: "node \<Rightarrow> node \<Rightarrow> bool" where
  relisted_same: "relisted nd nd"
| relisted_swap: "relisted (Dir (xs @ a # b # ys)) (Dir (xs @ b # a # ys))"
| relisted_child: "relisted c c' \<Longrightarrow> relisted (Dir (xs @ (s, c) # ys)) (Dir (xs @ (s, c') # ys))"
| relisted_trans: "relisted nd nd' \<Longrightarrow> relisted nd' nd'' \<Longrightarrow> relisted nd nd''"

section \<open>What one call of scanDirectory adds\<close>

text \<open>
  The proofs look at a call of \<open>scanDirectory\<close> from the empty state: the files it
  pushes, the events it emits and the exception it ends with. From any other state
  the call appends the same (\<open>scanDirectory_eq\<close> below).
\<close>

definition empty_state :: scan_state where
  "empty_state = \<lparr> files = [], trace = [] \<rparr>"

definition extend :: "scan_state \<Rightarrow> scan_state \<Rightarrow> scan_state" where
  "extend st d = \<lparr> files = files st @ files d, trace = trace st @ trace d \<rparr>"

definition framed :: "(scan_state \<Rightarrow> scan_state \<times> fs_error option) \<Rightarrow> bool" where
  "framed f = (\<forall>st. f st = (extend st (fst (f empty_state)), snd (f empty_state)))"

definition outcome :: "(string \<Rightarrow> bool) \<Rightarrow> path \<Rightarrow> path \<Rightarrow> node \<Rightarrow> fs_error option" where
  "outcome ign r dir nd = snd (scanDirectory ign r dir nd empty_state)"

definition found :: "(string \<Rightarrow> bool) \<Rightarrow> path \<Rightarrow> path \<Rightarrow> node \<Rightarrow> path list" where
  "found ign r dir nd = files (fst (scanDirectory ign r dir nd empty_state))"

definition events :: "(string \<Rightarrow> bool) \<Rightarrow> path \<Rightarrow> path \<Rightarrow> node \<Rightarrow> event list" where
  "events ign r dir nd = trace (fst (scanDirectory ign r dir nd empty_state))"

definition outcomeItems :: "(string \<Rightarrow> bool) \<Rightarrow> path \<Rightarrow> path \<Rightarrow> (string \<times> node) list \<Rightarrow> fs_error option" where
  "outcomeItems ign r dir es = snd (scanItems ign r dir es empty_state)"

definition foundItems :: "(string \<Rightarrow> bool) \<Rightarrow> path \<Rightarrow> path \<Rightarrow> (string \<times> node) list \<Rightarrow> path list" where
  "foundItems ign r dir es = files (fst (scanItems ign r dir es empty_state))"

definition eventsItems :: "(string \<Rightarrow> bool) \<Rightarrow> path \<Rightarrow> path \<Rightarrow> (string \<times> node) list \<Rightarrow> event list" where
  "eventsItems ign r dir es = trace (fst (scanItems ign r dir es empty_state))"

text \<open>
  \<open>bad\<close>: below \<open>nd\<close>, an entry fails that no ignored path shields. \<open>below\<close>: the
  relative paths of the entries at or below \<open>nd\<close> that are not directories and that
  no ignored path shields.
\<close>

definition bad :: "(string \<Rightarrow> bool) \<Rightarrow> string list \<Rightarrow> node \<Rightarrow> bool" where
  "bad ign pre nd = (\<exists>rel c. rel \<noteq> [] \<and> node_at nd rel c \<and> unignored ign pre rel \<and> fails c)"

definition below :: "(string \<Rightarrow> bool) \<Rightarrow> string list \<Rightarrow> node \<Rightarrow> string list set" where
  "below ign pre nd = {rel. (\<exists>c. node_at nd rel c \<and> nondirectory c) \<and> unignored ign pre rel}"

definition belowItems :: "(string \<Rightarrow> bool) \<Rightarrow> string list \<Rightarrow> (string \<times> node) list \<Rightarrow> string list set" where
  "belowItems ign pre es = {s # rel | s rel c. (s, c) \<in> set es \<and> \<not> ign (path_string (pre @ [s])) \<and>
      rel \<in> below ign (pre @ [s]) c}"

text \<open>An event of a scan from the root \<open>[]\<close>, as the scan from the root \<open>r\<close> emits it.\<close>

fun shift_event :: "path \<Rightarrow> event \<Rightarrow> event" where
  "shift_event r (Readdir d) = Readdir (r @ d)"
| "shift_event r (Stat d) = Stat (r @ d)"
| "shift_event r (Query q) = Query q"

text \<open>Two trees that a scan cannot tell apart but for the order of its steps.\<close>

definition alike :: "node \<Rightarrow> node \<Rightarrow> bool" where
  "alike nd nd' =
     (isl (readdir nd) = isl (readdir nd') \<and> fails nd = fails nd' \<and>
      stat nd = stat nd' \<and>
      (\<forall>ign pre. bad ign pre nd = bad ign pre nd' \<and> below ign pre nd = below ign pre nd'))"

section \<open>Lemmas\<close>

subsection \<open>The frame of a call\<close>

lemma extend_empty [simp]: "extend st empty_state = st" "extend empty_state st = st"
  by (rule scan_state.equality; simp add: extend_def empty_state_def)+

lemma extend_assoc: "extend st (extend d1 d2) = extend (extend st d1) d2"
  by (simp add: extend_def)

lemma emit_as_extend: "emit ev st = extend st (emit ev empty_state)"
  by (rule scan_state.equality) (simp_all add: extend_def emit_def empty_state_def)

lemma push_as_extend: "push p st = extend st (push p empty_state)"
  by (rule scan_state.equality) (simp_all add: extend_def push_def empty_state_def)

lemma framedD: "framed f \<Longrightarrow> f st = (extend st (fst (f empty_state)), snd (f empty_state))"
  unfolding framed_def by blast

lemma framed_return: "framed (\<lambda>st. (st, x))"
  by (simp add: framed_def)

lemma framed_emit: "framed f \<Longrightarrow> framed (\<lambda>st. f (emit ev st))"
  unfolding framed_def
proof
  fix st
  assume a: "\<forall>st. f st = (extend st (fst (f empty_state)), snd (f empty_state))"
  have 1: "f (emit ev st) = (extend (emit ev st) (fst (f empty_state)), snd (f empty_state))" using a by blast
  have 2: "f (emit ev empty_state) = (extend (emit ev empty_state) (fst (f empty_state)), snd (f empty_state))" using a by blast
  show "f (emit ev st) = (extend st (fst (f (emit ev empty_state))), snd (f (emit ev empty_state)))"
    by (simp only: 1 2 fst_conv snd_conv extend_assoc emit_as_extend[of ev st, symmetric])
qed

lemma framed_push: "framed f \<Longrightarrow> framed (\<lambda>st. f (push p st))"
  unfolding framed_def
proof
  fix st
  assume a: "\<forall>st. f st = (extend st (fst (f empty_state)), snd (f empty_state))"
  have 1: "f (push p st) = (extend (push p st) (fst (f empty_state)), snd (f empty_state))" using a by blast
  have 2: "f (push p empty_state) = (extend (push p empty_state) (fst (f empty_state)), snd (f empty_state))" using a by blast
  show "f (push p st) = (extend st (fst (f (push p empty_state))), snd (f (push p empty_state)))"
    by (simp only: 1 2 fst_conv snd_conv extend_assoc push_as_extend[of p st, symmetric])
qed

lemma framed_seq:
  assumes f: "framed f" and g: "framed g"
  shows "framed (\<lambda>st. case f st of (st2, Some e) \<Rightarrow> (st2, Some e) | (st2, None) \<Rightarrow> g st2)"
  unfolding framed_def
proof
  fix st
  obtain d x where e: "f empty_state = (d, x)" by (cases "f empty_state")
  have 1: "f st = (extend st d, x)" using framedD[OF f, of st] e by simp
  obtain d' y where e': "g empty_state = (d', y)" by (cases "g empty_state")
  have 2: "\<And>s. g s = (extend s d', y)" using framedD[OF g] e' by simp
  show "(case f st of (st2, Some e) \<Rightarrow> (st2, Some e) | (st2, None) \<Rightarrow> g st2) =
        (extend st (fst (case f empty_state of (st2, Some e) \<Rightarrow> (st2, Some e) | (st2, None) \<Rightarrow> g st2)),
         snd (case f empty_state of (st2, Some e) \<Rightarrow> (st2, Some e) | (st2, None) \<Rightarrow> g st2))"
    by (cases x) (simp_all add: 1 e 2[of "extend st d"] 2[of d] extend_assoc)
qed

lemma scanItems_framed:
  assumes "\<And>item child dir. (item, child) \<in> set items \<Longrightarrow> framed (scanDirectory ign r dir child)"
  shows "framed (scanItems ign r dir items)"
  using assms
proof (induction items)
  case Nil
  have "scanItems ign r dir [] = (\<lambda>st. (st, None))" by (rule ext) simp
  then show ?case by (simp add: framed_return)
next
  case (Cons a items)
  obtain item child where a: "a = (item, child)" by (cases a)
  have IH: "framed (scanItems ign r dir items)"
  proof (rule Cons.IH)
    fix item child dir
    assume "(item, child) \<in> set items"
    then show "framed (scanDirectory ign r dir child)"
      using Cons.prems[of item child dir] by simp
  qed
  have C: "framed (scanDirectory ign r (path_join dir item) child)"
    by (rule Cons.prems[of item child]) (simp add: a)
  let ?q = "Query (path_relative r (path_join dir item))"
  let ?s = "Stat (path_join dir item)"
  show ?case
  proof (cases "ign (path_relative r (path_join dir item))")
    case True
    then have "scanItems ign r dir (a # items) = (\<lambda>st. scanItems ign r dir items (emit ?q st))"
      by (intro ext) (simp add: a Let_def)
    then show ?thesis using framed_emit[OF IH] by simp
  next
    case False
    show ?thesis
    proof (cases "stat child")
      case (Inl e)
      have "scanItems ign r dir (a # items) = (\<lambda>st. (\<lambda>st. (\<lambda>st. (st, Some e)) (emit ?s st)) (emit ?q st))"
        using False Inl by (intro ext) (simp add: a Let_def)
      then show ?thesis using framed_emit[OF framed_emit[OF framed_return]] by simp
    next
      case (Inr stats)
      show ?thesis
      proof (cases "isDirectory stats")
        case True
        have "scanItems ign r dir (a # items) = (\<lambda>st. (\<lambda>st. (\<lambda>st. case scanDirectory ign r (path_join dir item) child st of (st2, Some e) \<Rightarrow> (st2, Some e) | (st2, None) \<Rightarrow> scanItems ign r dir items st2) (emit ?s st)) (emit ?q st))"
          using False Inr True by (intro ext) (simp add: a Let_def)
        then show ?thesis using framed_emit[OF framed_emit[OF framed_seq[OF C IH]]] by simp
      next
        case F: False
        have "scanItems ign r dir (a # items) = (\<lambda>st. (\<lambda>st. (\<lambda>st. scanItems ign r dir items (push (path_join dir item) st)) (emit ?s st)) (emit ?q st))"
          using False Inr F by (intro ext) (simp add: a Let_def)
        then show ?thesis using framed_emit[OF framed_emit[OF framed_push[OF IH]]] by simp
      qed
    qed
  qed
qed

lemma scanDirectory_framed: "framed (scanDirectory ign r dir nd)"
proof (induction nd arbitrary: dir)
  case (Dir es)
  have "framed (scanItems ign r dir es)"
    by (rule scanItems_framed) (use Dir in fastforce)
  then have "framed (\<lambda>st. scanItems ign r dir es (emit (Readdir dir) st))" by (rule framed_emit)
  moreover have "scanDirectory ign r dir (Dir es) = (\<lambda>st. scanItems ign r dir es (emit (Readdir dir) st))"
    by (intro ext) (simp add: scanDirectory.simps)
  ultimately show ?case by simp
next
  case (File c)
  have "scanDirectory ign r dir (File c) = (\<lambda>st. (\<lambda>st. (st, Some ENOTDIR)) (emit (Readdir dir) st))"
    by (intro ext) (simp add: scanDirectory.simps)
  then show ?case using framed_emit[OF framed_return] by simp
next
  case Socket
  have "scanDirectory ign r dir Socket = (\<lambda>st. (\<lambda>st. (st, Some ENOTDIR)) (emit (Readdir dir) st))"
    by (intro ext) (simp add: scanDirectory.simps)
  then show ?case using framed_emit[OF framed_return] by simp
next
  case (NoRead e)
  have "scanDirectory ign r dir (NoRead e) = (\<lambda>st. (\<lambda>st. (st, Some e)) (emit (Readdir dir) st))"
    by (intro ext) (simp add: scanDirectory.simps)
  then show ?case using framed_emit[OF framed_return] by simp
next
  case (NoStat e)
  have "scanDirectory ign r dir (NoStat e) = (\<lambda>st. (\<lambda>st. (st, Some e)) (emit (Readdir dir) st))"
    by (intro ext) (simp add: scanDirectory.simps)
  then show ?case using framed_emit[OF framed_return] by simp
qed

subsection \<open>Equations for what a call adds\<close>

lemma scanItems_framed': "framed (scanItems ign r dir items)"
  by (rule scanItems_framed) (rule scanDirectory_framed)

lemma scanDirectory_eq:
  "scanDirectory ign r dir nd st =
     (\<lparr> files = files st @ found ign r dir nd, trace = trace st @ events ign r dir nd \<rparr>, outcome ign r dir nd)"
  using framedD[OF scanDirectory_framed, of ign r dir nd st]
  by (simp add: found_def events_def outcome_def extend_def)

lemma scanItems_eq:
  "scanItems ign r dir es st =
     (\<lparr> files = files st @ foundItems ign r dir es, trace = trace st @ eventsItems ign r dir es \<rparr>, outcomeItems ign r dir es)"
  using framedD[OF scanItems_framed', of ign r dir es st]
  by (simp add: foundItems_def eventsItems_def outcomeItems_def extend_def)

lemma Items_Nil [simp]:
  "outcomeItems ign r dir [] = None" "foundItems ign r dir [] = []" "eventsItems ign r dir [] = []"
  by (simp_all add: outcomeItems_def foundItems_def eventsItems_def empty_state_def)

lemma outcomeItems_Cons:
  "outcomeItems ign r dir ((item, child) # rest) =
     (if ign (path_relative r (path_join dir item)) then outcomeItems ign r dir rest
      else case stat child of
             Inl e \<Rightarrow> Some e
           | Inr stats \<Rightarrow>
               if isDirectory stats then
                 (case outcome ign r (path_join dir item) child of
                    Some e \<Rightarrow> Some e
                  | None \<Rightarrow> outcomeItems ign r dir rest)
               else outcomeItems ign r dir rest)"
  unfolding outcomeItems_def[of ign r dir "(item, child) # rest"]
  by (simp add: Let_def scanItems_eq[of ign r dir rest] scanDirectory_eq[of ign r "path_join dir item" child]
       split: sum.splits option.splits)

lemma foundItems_Cons:
  "foundItems ign r dir ((item, child) # rest) =
     (if ign (path_relative r (path_join dir item)) then foundItems ign r dir rest
      else case stat child of
             Inl e \<Rightarrow> []
           | Inr stats \<Rightarrow>
               if isDirectory stats then
                 found ign r (path_join dir item) child @
                 (case outcome ign r (path_join dir item) child of
                    Some e \<Rightarrow> []
                  | None \<Rightarrow> foundItems ign r dir rest)
               else path_join dir item # foundItems ign r dir rest)"
  unfolding foundItems_def[of ign r dir "(item, child) # rest"]
  by (simp add: Let_def scanItems_eq[of ign r dir rest] scanDirectory_eq[of ign r "path_join dir item" child]
       emit_def push_def empty_state_def
       split: sum.splits option.splits)

lemma eventsItems_Cons:
  "eventsItems ign r dir ((item, child) # rest) =
     Query (path_relative r (path_join dir item)) #
     (if ign (path_relative r (path_join dir item)) then eventsItems ign r dir rest
      else Stat (path_join dir item) #
          (case stat child of
             Inl e \<Rightarrow> []
           | Inr stats \<Rightarrow>
               if isDirectory stats then
                 events ign r (path_join dir item) child @
                 (case outcome ign r (path_join dir item) child of
                    Some e \<Rightarrow> []
                  | None \<Rightarrow> eventsItems ign r dir rest)
               else eventsItems ign r dir rest))"
  unfolding eventsItems_def[of ign r dir "(item, child) # rest"]
  by (simp add: Let_def scanItems_eq[of ign r dir rest] scanDirectory_eq[of ign r "path_join dir item" child]
       emit_def push_def empty_state_def
       split: sum.splits option.splits)

lemma outcome_eq:
  "outcome ign r dir nd = (case readdir nd of Inl e \<Rightarrow> Some e | Inr items \<Rightarrow> outcomeItems ign r dir items)"
  unfolding outcome_def scanDirectory.simps[of ign r dir nd empty_state]
  by (simp add: scanItems_eq[of ign r dir] split: sum.splits)

lemma found_eq:
  "found ign r dir nd = (case readdir nd of Inl e \<Rightarrow> [] | Inr items \<Rightarrow> foundItems ign r dir items)"
  unfolding found_def scanDirectory.simps[of ign r dir nd empty_state]
  by (simp add: scanItems_eq[of ign r dir] emit_def empty_state_def split: sum.splits)

lemma events_eq:
  "events ign r dir nd = Readdir dir # (case readdir nd of Inl e \<Rightarrow> [] | Inr items \<Rightarrow> eventsItems ign r dir items)"
  unfolding events_def scanDirectory.simps[of ign r dir nd empty_state]
  by (simp add: scanItems_eq[of ign r dir] emit_def empty_state_def split: sum.splits)

lemma scanFiles_eq:
  "scanFiles ign r nd tr =
     (tr @ events ign r r nd, case outcome ign r r nd of Some e \<Rightarrow> Inl e | None \<Rightarrow> Inr (found ign r r nd))"
  by (simp add: scanFiles_def scanDirectory_eq[of ign r r nd] split: option.splits)

subsection \<open>When a scan succeeds\<close>

lemma relative_segments_append [simp]: "relative_segments r (r @ rel) = rel"
  by (induction r) simp_all

lemma path_relative_append [simp]: "path_relative r (r @ rel) = path_string rel"
  by (simp add: path_relative_def)

lemma path_relative_join [simp]: "path_relative r (path_join (r @ pre) s) = path_string (pre @ [s])"
  by (simp add: path_join_def)

lemma path_join_append: "path_join (r @ pre) s = r @ (pre @ [s])"
  by (simp add: path_join_def)

lemma node_at_Dir [simp]: "node_at (Dir es) (s # ss) c = (\<exists>k. (s, k) \<in> set es \<and> node_at k ss c)"
  by (auto simp: list_ex_iff)

lemma node_at_nonDir [simp]:
  "node_at (File x) (s # ss) c = False" "node_at Socket (s # ss) c = False"
  "node_at (NoRead e) (s # ss) c = False" "node_at (NoStat e) (s # ss) c = False"
  by simp_all

declare node_at.simps(2) [simp del]

lemma bad_nonDir [simp]:
  "bad ign pre (File x) = False" "bad ign pre Socket = False"
  "bad ign pre (NoRead e) = False" "bad ign pre (NoStat e) = False"
  unfolding bad_def by (auto simp: neq_Nil_conv)

lemma bad_Dir:
  "bad ign pre (Dir es) = (\<exists>s c. (s, c) \<in> set es \<and> \<not> ign (path_string (pre @ [s])) \<and> (fails c \<or> bad ign (pre @ [s]) c))"
proof
  assume "bad ign pre (Dir es)"
  then obtain rel c where rel: "rel \<noteq> []" "node_at (Dir es) rel c" "unignored ign pre rel" "fails c"
    unfolding bad_def by blast
  then obtain s ss where r: "rel = s # ss" by (cases rel) auto
  have "node_at (Dir es) (s # ss) c" using rel r by simp
  then obtain k where k: "(s, k) \<in> set es" "node_at k ss c" unfolding node_at_Dir by blast
  have u: "\<not> ign (path_string (pre @ [s]))" "unignored ign (pre @ [s]) ss" using rel r by auto
  show "\<exists>s c. (s, c) \<in> set es \<and> \<not> ign (path_string (pre @ [s])) \<and> (fails c \<or> bad ign (pre @ [s]) c)"
  proof (cases ss)
    case Nil
    then have "k = c" using k by simp
    then show ?thesis using k u rel by blast
  next
    case (Cons a list)
    then have "bad ign (pre @ [s]) k" unfolding bad_def using k u rel by blast
    then show ?thesis using k u by blast
  qed
next
  assume "\<exists>s c. (s, c) \<in> set es \<and> \<not> ign (path_string (pre @ [s])) \<and> (fails c \<or> bad ign (pre @ [s]) c)"
  then obtain s c where sc: "(s, c) \<in> set es" "\<not> ign (path_string (pre @ [s]))" "fails c \<or> bad ign (pre @ [s]) c" by blast
  from sc(3) show "bad ign pre (Dir es)"
  proof
    assume "fails c"
    then have "[s] \<noteq> [] \<and> node_at (Dir es) [s] c \<and> unignored ign pre [s] \<and> fails c"
      using sc by simp
    then show ?thesis unfolding bad_def by blast
  next
    assume "bad ign (pre @ [s]) c"
    then obtain rel c' where "rel \<noteq> []" "node_at c rel c'" "unignored ign (pre @ [s]) rel" "fails c'"
      unfolding bad_def by blast
    then have "s # rel \<noteq> [] \<and> node_at (Dir es) (s # rel) c' \<and> unignored ign pre (s # rel) \<and> fails c'"
      using sc by auto
    then show ?thesis unfolding bad_def by blast
  qed
qed

lemma outcomeItems_None:
  assumes "\<And>s c pre. (s, c) \<in> set es \<Longrightarrow>
     (outcome ign r (r @ pre) c = None) = ((\<exists>es. readdir c = Inr es) \<and> \<not> bad ign pre c)"
  shows "(outcomeItems ign r (r @ pre) es = None) =
     (\<not> (\<exists>s c. (s, c) \<in> set es \<and> \<not> ign (path_string (pre @ [s])) \<and> (fails c \<or> bad ign (pre @ [s]) c)))"
  using assms
proof (induction es)
  case Nil
  then show ?case by simp
next
  case (Cons a es)
  obtain s c where a: "a = (s, c)" by (cases a)
  have IH: "(outcomeItems ign r (r @ pre) es = None) =
     (\<not> (\<exists>s c. (s, c) \<in> set es \<and> \<not> ign (path_string (pre @ [s])) \<and> (fails c \<or> bad ign (pre @ [s]) c)))"
  proof (rule Cons.IH)
    fix s c pre assume "(s, c) \<in> set es"
    then show "(outcome ign r (r @ pre) c = None) = ((\<exists>es. readdir c = Inr es) \<and> \<not> bad ign pre c)"
      using Cons.prems[of s c pre] by simp
  qed
  have C: "(outcome ign r (r @ (pre @ [s])) c = None) = ((\<exists>es. readdir c = Inr es) \<and> \<not> bad ign (pre @ [s]) c)"
    using Cons.prems[of s c "pre @ [s]"] a by simp
  have head: "(if ign (path_string (pre @ [s])) then False
      else case stat c of Inl e \<Rightarrow> True
        | Inr stats \<Rightarrow> isDirectory stats \<and> outcome ign r (r @ (pre @ [s])) c \<noteq> None)
     = (\<not> ign (path_string (pre @ [s])) \<and> (fails c \<or> bad ign (pre @ [s]) c))"
    unfolding C by (cases c) (auto simp: fails_def)
  have split: "(\<exists>s' c'. (s', c') \<in> set (a # es) \<and> \<not> ign (path_string (pre @ [s'])) \<and> (fails c' \<or> bad ign (pre @ [s']) c'))
     = ((\<not> ign (path_string (pre @ [s])) \<and> (fails c \<or> bad ign (pre @ [s]) c))
        \<or> (\<exists>s c. (s, c) \<in> set es \<and> \<not> ign (path_string (pre @ [s])) \<and> (fails c \<or> bad ign (pre @ [s]) c)))"
    unfolding a by auto
  have lhs: "(outcomeItems ign r (r @ pre) (a # es) = None) =
     (\<not> (if ign (path_string (pre @ [s])) then False
      else case stat c of Inl e \<Rightarrow> True
        | Inr stats \<Rightarrow> isDirectory stats \<and> outcome ign r (r @ (pre @ [s])) c \<noteq> None)
      \<and> outcomeItems ign r (r @ pre) es = None)"
    unfolding a outcomeItems_Cons path_relative_join path_join_append
    by (simp split: sum.splits option.splits)
  show ?case
    unfolding lhs head IH split by blast
qed

lemma outcome_None:
  "(outcome ign r (r @ pre) nd = None) = ((\<exists>es. readdir nd = Inr es) \<and> \<not> bad ign pre nd)"
proof (induction nd arbitrary: pre)
  case (Dir es)
  have "(outcomeItems ign r (r @ pre) es = None) =
     (\<not> (\<exists>s c. (s, c) \<in> set es \<and> \<not> ign (path_string (pre @ [s])) \<and> (fails c \<or> bad ign (pre @ [s]) c)))"
    by (rule outcomeItems_None) (use Dir in fastforce)
  then show ?case by (simp add: outcome_eq bad_Dir)
qed (simp_all add: outcome_eq)

subsection \<open>When a scan fails\<close>

lemma fails_rejects: "fails c = (rejects c p \<noteq> None)"
  by (cases c) (simp_all add: fails_def rejects_def)

lemma events_nonempty [simp]: "events ign r dir nd \<noteq> []"
  by (simp add: events_eq)

lemma eventsItems_nonempty: "outcomeItems ign r dir es = Some e \<Longrightarrow> eventsItems ign r dir es \<noteq> []"
proof (cases es)
  case Nil
  assume "outcomeItems ign r dir es = Some e"
  then show ?thesis using Nil by simp
next
  case (Cons a list)
  obtain s c where "a = (s, c)" by (cases a)
  then show ?thesis using Cons by (simp add: eventsItems_Cons)
qed

lemma node_at_Cons_mono:
  "rel \<noteq> [] \<Longrightarrow> node_at (Dir es) rel c \<Longrightarrow> node_at (Dir (a # es)) rel c"
  by (cases rel) auto

lemma outcomeItems_Some:
  assumes "\<And>s c pre e. (s, c) \<in> set es \<Longrightarrow> outcome ign r (r @ pre) c = Some e \<Longrightarrow>
       (readdir c = Inl e \<and> last (events ign r (r @ pre) c) = Readdir (r @ pre)) \<or>
       (\<exists>rel c'. rel \<noteq> [] \<and> node_at c rel c' \<and> unignored ign pre rel \<and>
          rejects c' (r @ pre @ rel) = Some (last (events ign r (r @ pre) c), e))"
    and "outcomeItems ign r (r @ pre) es = Some e"
  shows "\<exists>rel c. rel \<noteq> [] \<and> node_at (Dir es) rel c \<and> unignored ign pre rel \<and>
          rejects c (r @ pre @ rel) = Some (last (eventsItems ign r (r @ pre) es), e)"
  using assms
proof (induction es)
  case Nil
  then show ?case by simp
next
  case (Cons a es)
  obtain s c where a: "a = (s, c)" by (cases a)
  have rest: "\<exists>rel c. rel \<noteq> [] \<and> node_at (Dir (a # es)) rel c \<and> unignored ign pre rel \<and>
          rejects c (r @ pre @ rel) = Some (last (eventsItems ign r (r @ pre) es), e)"
    if o: "outcomeItems ign r (r @ pre) es = Some e"
  proof -
    have "\<exists>rel c. rel \<noteq> [] \<and> node_at (Dir es) rel c \<and> unignored ign pre rel \<and>
          rejects c (r @ pre @ rel) = Some (last (eventsItems ign r (r @ pre) es), e)"
    proof (rule Cons.IH[OF _ o])
      fix s c pre e assume "(s, c) \<in> set es" "outcome ign r (r @ pre) c = Some e"
      then show "(readdir c = Inl e \<and> last (events ign r (r @ pre) c) = Readdir (r @ pre)) \<or>
       (\<exists>rel c'. rel \<noteq> [] \<and> node_at c rel c' \<and> unignored ign pre rel \<and>
          rejects c' (r @ pre @ rel) = Some (last (events ign r (r @ pre) c), e))"
        using Cons.prems(1)[of s c pre e] by simp
    qed
    then obtain rel c' where "rel \<noteq> []" "node_at (Dir es) rel c'" "unignored ign pre rel"
        "rejects c' (r @ pre @ rel) = Some (last (eventsItems ign r (r @ pre) es), e)"
      by (elim exE conjE)
    then have "rel \<noteq> [] \<and> node_at (Dir (a # es)) rel c' \<and> unignored ign pre rel \<and>
        rejects c' (r @ pre @ rel) = Some (last (eventsItems ign r (r @ pre) es), e)"
      using node_at_Cons_mono[of rel es c' a] by simp
    then show ?thesis by blast
  qed
  have ne: "eventsItems ign r (r @ pre) es \<noteq> []" if "outcomeItems ign r (r @ pre) es = Some e"
    using that by (rule eventsItems_nonempty)
  have oc: "outcomeItems ign r (r @ pre) ((s, c) # es) = Some e" using Cons.prems(2) a by simp
  let ?q = "path_string (pre @ [s])"
  let ?p = "r @ (pre @ [s])"
  show ?case
  proof (cases "ign ?q")
    case True
    then have o: "outcomeItems ign r (r @ pre) es = Some e"
      using oc by (simp add: outcomeItems_Cons path_join_append)
    have "last (eventsItems ign r (r @ pre) (a # es)) = last (eventsItems ign r (r @ pre) es)"
      using True ne[OF o] by (simp add: a eventsItems_Cons path_join_append)
    then show ?thesis using rest[OF o] by simp
  next
    case False
    have u: "unignored ign pre [s]" using False by simp
    have n: "node_at (Dir (a # es)) [s] c" by (simp add: a)
    show ?thesis
    proof (cases "stat c")
      case (Inl e')
      then have e: "e' = e" using oc False by (simp add: outcomeItems_Cons path_join_append)
      have "last (eventsItems ign r (r @ pre) (a # es)) = Stat ?p"
        using False Inl by (simp add: a eventsItems_Cons path_join_append)
      moreover have "rejects c (r @ pre @ [s]) = Some (Stat ?p, e)"
        using Inl e by (simp add: rejects_def)
      ultimately have "[s] \<noteq> [] \<and> node_at (Dir (a # es)) [s] c \<and> unignored ign pre [s] \<and>
          rejects c (r @ pre @ [s]) = Some (last (eventsItems ign r (r @ pre) (a # es)), e)"
        using u n by simp
      then show ?thesis by blast
    next
      case (Inr stats)
      show ?thesis
      proof (cases "isDirectory stats")
        case F: False
        then have o: "outcomeItems ign r (r @ pre) es = Some e"
          using oc False Inr by (simp add: outcomeItems_Cons path_join_append)
        have "last (eventsItems ign r (r @ pre) (a # es)) = last (eventsItems ign r (r @ pre) es)"
          using False Inr F ne[OF o] by (simp add: a eventsItems_Cons path_join_append)
        then show ?thesis using rest[OF o] by simp
      next
        case T: True
        show ?thesis
        proof (cases "outcome ign r ?p c")
          case None
          then have o: "outcomeItems ign r (r @ pre) es = Some e"
            using oc False Inr T by (simp add: outcomeItems_Cons path_join_append)
          have "last (eventsItems ign r (r @ pre) (a # es)) = last (eventsItems ign r (r @ pre) es)"
            using False Inr T None ne[OF o] by (simp add: a eventsItems_Cons path_join_append)
          then show ?thesis using rest[OF o] by simp
        next
          case (Some e')
          then have e: "e' = e" using oc False Inr T by (simp add: outcomeItems_Cons path_join_append)
          have l: "last (eventsItems ign r (r @ pre) (a # es)) = last (events ign r ?p c)"
            using False Inr T Some by (simp add: a eventsItems_Cons path_join_append)
          have sc: "(s, c) \<in> set (a # es)" by (simp add: a)
          have oc': "outcome ign r (r @ (pre @ [s])) c = Some e" using Some e by simp
          from Cons.prems(1)[OF sc oc'] show ?thesis
          proof
            assume d: "readdir c = Inl e \<and> last (events ign r ?p c) = Readdir ?p"
            then have "rejects c (r @ pre @ [s]) = Some (Readdir ?p, e)"
              using Inr T by (simp add: rejects_def)
            then have "[s] \<noteq> [] \<and> node_at (Dir (a # es)) [s] c \<and> unignored ign pre [s] \<and>
                rejects c (r @ pre @ [s]) = Some (last (eventsItems ign r (r @ pre) (a # es)), e)"
              using u n l d by simp
            then show ?thesis by blast
          next
            assume "\<exists>rel c'. rel \<noteq> [] \<and> node_at c rel c' \<and> unignored ign (pre @ [s]) rel \<and>
                rejects c' (r @ (pre @ [s]) @ rel) = Some (last (events ign r ?p c), e)"
            then obtain rel c' where rc: "rel \<noteq> []" "node_at c rel c'" "unignored ign (pre @ [s]) rel"
                "rejects c' (r @ (pre @ [s]) @ rel) = Some (last (events ign r ?p c), e)"
              by (elim exE conjE)
            have "s # rel \<noteq> [] \<and> node_at (Dir (a # es)) (s # rel) c' \<and> unignored ign pre (s # rel) \<and>
                rejects c' (r @ pre @ s # rel) = Some (last (eventsItems ign r (r @ pre) (a # es)), e)"
              using rc False l a by auto
            then show ?thesis by blast
          qed
        qed
      qed
    qed
  qed
qed

lemma outcome_Some:
  "outcome ign r (r @ pre) nd = Some e \<Longrightarrow>
     (readdir nd = Inl e \<and> last (events ign r (r @ pre) nd) = Readdir (r @ pre)) \<or>
     (\<exists>rel c. rel \<noteq> [] \<and> node_at nd rel c \<and> unignored ign pre rel \<and>
        rejects c (r @ pre @ rel) = Some (last (events ign r (r @ pre) nd), e))"
proof (induction nd arbitrary: pre e)
  case (Dir es)
  have o: "outcomeItems ign r (r @ pre) es = Some e" using Dir.prems by (simp add: outcome_eq)
  have "\<exists>rel c. rel \<noteq> [] \<and> node_at (Dir es) rel c \<and> unignored ign pre rel \<and>
          rejects c (r @ pre @ rel) = Some (last (eventsItems ign r (r @ pre) es), e)"
  proof (rule outcomeItems_Some[OF _ o])
    fix s c pre e assume sc: "(s, c) \<in> set es" and oc: "outcome ign r (r @ pre) c = Some e"
    have "c \<in> Basic_BNFs.snds (s, c)" by simp
    from Dir.IH[OF sc this oc] show "(readdir c = Inl e \<and> last (events ign r (r @ pre) c) = Readdir (r @ pre)) \<or>
       (\<exists>rel c'. rel \<noteq> [] \<and> node_at c rel c' \<and> unignored ign pre rel \<and>
          rejects c' (r @ pre @ rel) = Some (last (events ign r (r @ pre) c), e))" .
  qed
  moreover have "last (events ign r (r @ pre) (Dir es)) = last (eventsItems ign r (r @ pre) es)"
    using eventsItems_nonempty[OF o] by (simp add: events_eq)
  ultimately show ?case by simp
qed (simp_all add: outcome_eq events_eq)

subsection \<open>What a successful scan returns\<close>

lemma nondirectory_simps [simp]:
  "nondirectory (File x)" "nondirectory Socket" "\<not> nondirectory (Dir es)"
  "\<not> nondirectory (NoRead e)" "\<not> nondirectory (NoStat e)"
  by (simp_all add: nondirectory_def)

lemma below_File [simp]: "below ign pre (File x) = {[]}"
proof (rule set_eqI)
  fix rel show "(rel \<in> below ign pre (File x)) = (rel \<in> {[]})"
    by (cases rel) (auto simp: below_def)
qed

lemma below_Socket [simp]: "below ign pre Socket = {[]}"
proof (rule set_eqI)
  fix rel show "(rel \<in> below ign pre Socket) = (rel \<in> {[]})"
    by (cases rel) (auto simp: below_def)
qed

lemma below_NoRead [simp]: "below ign pre (NoRead e) = {}"
proof (rule set_eqI)
  fix rel show "(rel \<in> below ign pre (NoRead e)) = (rel \<in> {})"
    by (cases rel) (auto simp: below_def)
qed

lemma below_NoStat [simp]: "below ign pre (NoStat e) = {}"
proof (rule set_eqI)
  fix rel show "(rel \<in> below ign pre (NoStat e)) = (rel \<in> {})"
    by (cases rel) (auto simp: below_def)
qed

lemma below_Dir: "below ign pre (Dir es) = belowItems ign pre es"
proof (rule set_eqI)
  fix rel
  show "(rel \<in> below ign pre (Dir es)) = (rel \<in> belowItems ign pre es)"
  proof (cases rel)
    case Nil
    then show ?thesis by (simp add: below_def belowItems_def)
  next
    case (Cons s ss)
    have "(rel \<in> below ign pre (Dir es)) =
        (\<exists>c. (s, c) \<in> set es \<and> \<not> ign (path_string (pre @ [s])) \<and> ss \<in> below ign (pre @ [s]) c)"
      unfolding Cons below_def by auto
    also have "\<dots> = (rel \<in> belowItems ign pre es)"
      unfolding Cons belowItems_def by simp
    finally show ?thesis .
  qed
qed

lemma belowItems_Nil [simp]: "belowItems ign pre [] = {}"
  by (simp add: belowItems_def)

lemma belowItems_Cons:
  "belowItems ign pre ((s, c) # es) =
     (if ign (path_string (pre @ [s])) then {} else (Cons s) ` below ign (pre @ [s]) c)
     \<union> belowItems ign pre es"
proof (rule set_eqI)
  fix rel
  show "(rel \<in> belowItems ign pre ((s, c) # es)) =
     (rel \<in> (if ign (path_string (pre @ [s])) then {} else (Cons s) ` below ign (pre @ [s]) c)
     \<union> belowItems ign pre es)"
  proof (cases rel)
    case Nil
    then show ?thesis by (simp add: belowItems_def image_iff)
  next
    case (Cons t ts)
    have "(rel \<in> belowItems ign pre ((s, c) # es)) =
        ((t = s \<and> \<not> ign (path_string (pre @ [s])) \<and> ts \<in> below ign (pre @ [s]) c) \<or> rel \<in> belowItems ign pre es)"
      unfolding Cons belowItems_def by auto
    also have "\<dots> = (rel \<in> (if ign (path_string (pre @ [s])) then {} else (Cons s) ` below ign (pre @ [s]) c)
     \<union> belowItems ign pre es)"
      unfolding Cons by (auto simp: image_iff)
    finally show ?thesis .
  qed
qed

lemma foundItems_set:
  assumes "\<And>s c pre. (s, c) \<in> set es \<Longrightarrow> outcome ign r (r @ pre) c = None \<Longrightarrow>
     set (found ign r (r @ pre) c) = (\<lambda>rel. r @ pre @ rel) ` below ign pre c"
    and "outcomeItems ign r (r @ pre) es = None"
  shows "set (foundItems ign r (r @ pre) es) = (\<lambda>rel. r @ pre @ rel) ` belowItems ign pre es"
  using assms
proof (induction es)
  case Nil
  then show ?case by simp
next
  case (Cons a es)
  obtain s c where a: "a = (s, c)" by (cases a)
  have oc: "outcomeItems ign r (r @ pre) ((s, c) # es) = None" using Cons.prems(2) a by simp
  have C: "outcome ign r (r @ (pre @ [s])) c = None \<Longrightarrow>
     set (found ign r (r @ (pre @ [s])) c) = (\<lambda>rel. r @ (pre @ [s]) @ rel) ` below ign (pre @ [s]) c"
    using Cons.prems(1)[of s c "pre @ [s]"] a by simp
  have IH: "outcomeItems ign r (r @ pre) es = None \<Longrightarrow>
     set (foundItems ign r (r @ pre) es) = (\<lambda>rel. r @ pre @ rel) ` belowItems ign pre es"
  proof (rule Cons.IH)
    fix s c pre assume "(s, c) \<in> set es" "outcome ign r (r @ pre) c = None"
    then show "set (found ign r (r @ pre) c) = (\<lambda>rel. r @ pre @ rel) ` below ign pre c"
      using Cons.prems(1)[of s c pre] by simp
  qed
  show ?case
  proof (cases "ign (path_string (pre @ [s]))")
    case True
    then have "outcomeItems ign r (r @ pre) es = None" using oc by (simp add: outcomeItems_Cons)
    then show ?thesis using True IH by (simp add: a foundItems_Cons belowItems_Cons)
  next
    case False
    show ?thesis
    proof (cases c)
      case (File x)
      then have "outcomeItems ign r (r @ pre) es = None" using oc False by (simp add: outcomeItems_Cons)
      then show ?thesis using False IH File
        by (simp add: a foundItems_Cons belowItems_Cons path_join_append)
    next
      case Socket
      then have "outcomeItems ign r (r @ pre) es = None" using oc False by (simp add: outcomeItems_Cons)
      then show ?thesis using False IH Socket
        by (simp add: a foundItems_Cons belowItems_Cons path_join_append)
    next
      case (Dir ds)
      then have o: "outcome ign r (r @ (pre @ [s])) c = None" "outcomeItems ign r (r @ pre) es = None"
        using oc False by (auto simp: outcomeItems_Cons path_join_append split: option.splits)
      have "set (foundItems ign r (r @ pre) ((s, c) # es)) =
          set (found ign r (r @ (pre @ [s])) c) \<union> set (foundItems ign r (r @ pre) es)"
        using False Dir o by (simp add: foundItems_Cons path_join_append)
      also have "\<dots> = (\<lambda>rel. r @ (pre @ [s]) @ rel) ` below ign (pre @ [s]) c
          \<union> (\<lambda>rel. r @ pre @ rel) ` belowItems ign pre es"
        using C[OF o(1)] IH[OF o(2)] by simp
      also have "\<dots> = (\<lambda>rel. r @ pre @ rel) ` belowItems ign pre ((s, c) # es)"
        using False Dir by (simp add: belowItems_Cons image_Un image_image)
      finally show ?thesis by (simp add: a)
    next
      case (NoRead e)
      then show ?thesis using oc False by (simp add: outcomeItems_Cons outcome_eq path_join_append)
    next
      case (NoStat e)
      then show ?thesis using oc False by (simp add: outcomeItems_Cons)
    qed
  qed
qed

lemma found_set:
  "outcome ign r (r @ pre) nd = None \<Longrightarrow>
     set (found ign r (r @ pre) nd) = (\<lambda>rel. r @ pre @ rel) ` below ign pre nd"
proof (induction nd arbitrary: pre)
  case (Dir es)
  have o: "outcomeItems ign r (r @ pre) es = None" using Dir.prems by (simp add: outcome_eq)
  have "set (foundItems ign r (r @ pre) es) = (\<lambda>rel. r @ pre @ rel) ` belowItems ign pre es"
  proof (rule foundItems_set[OF _ o])
    fix s c pre assume "(s, c) \<in> set es" "outcome ign r (r @ pre) c = None"
    then show "set (found ign r (r @ pre) c) = (\<lambda>rel. r @ pre @ rel) ` below ign pre c"
      using Dir.IH[of "(s, c)" c pre] by simp
  qed
  then show ?case by (simp add: found_eq below_Dir)
qed (simp_all add: found_eq outcome_eq)

lemma foundItems_below:
  assumes "\<And>s c dir p. (s, c) \<in> set es \<Longrightarrow> p \<in> set (found ign r dir c) \<Longrightarrow> take (length dir) p = dir"
    and "p \<in> set (foundItems ign r dir es)"
  shows "\<exists>s. s \<in> fst ` set es \<and> take (Suc (length dir)) p = dir @ [s]"
  using assms
proof (induction es)
  case Nil
  then show ?case by simp
next
  case (Cons a es)
  obtain s c where a: "a = (s, c)" by (cases a)
  have C: "\<And>p. p \<in> set (found ign r (dir @ [s]) c) \<Longrightarrow> take (length (dir @ [s])) p = dir @ [s]"
    using Cons.prems(1)[of s c _ "dir @ [s]"] a by simp
  have IH: "p \<in> set (foundItems ign r dir es) \<Longrightarrow> \<exists>s. s \<in> fst ` set es \<and> take (Suc (length dir)) p = dir @ [s]"
  proof (rule Cons.IH)
    fix s c dir p assume "(s, c) \<in> set es" "p \<in> set (found ign r dir c)"
    then show "take (length dir) p = dir" using Cons.prems(1)[of s c p dir] by simp
  qed
  have "p \<in> set (foundItems ign r dir ((s, c) # es))" using Cons.prems(2) a by simp
  then consider "p \<in> set (foundItems ign r dir es)" | "p = dir @ [s]" | "p \<in> set (found ign r (dir @ [s]) c)"
    unfolding foundItems_Cons path_join_def
    by (cases "ign (path_relative r (dir @ [s]))"; cases "stat c"; cases "outcome ign r (dir @ [s]) c")
       (auto split: if_splits)
  then show ?case
  proof cases
    case 1
    then obtain s' where "s' \<in> fst ` set es" "take (Suc (length dir)) p = dir @ [s']" using IH by blast
    then show ?thesis by (intro exI[of _ s']) simp
  next
    case 2
    then show ?thesis by (intro exI[of _ s]) (simp add: a)
  next
    case 3
    then have "take (Suc (length dir)) p = dir @ [s]" using C[of p] by simp
    then show ?thesis by (intro exI[of _ s]) (simp add: a)
  qed
qed

lemma found_below: "p \<in> set (found ign r dir nd) \<Longrightarrow> take (length dir) p = dir"
proof (induction nd arbitrary: dir p)
  case (Dir es)
  have p: "p \<in> set (foundItems ign r dir es)" using Dir.prems by (simp add: found_eq)
  have "\<exists>s. s \<in> fst ` set es \<and> take (Suc (length dir)) p = dir @ [s]"
  proof (rule foundItems_below[OF _ p])
    fix s c dir p assume sc: "(s, c) \<in> set es" and pin: "p \<in> set (found ign r dir c)"
    have "c \<in> Basic_BNFs.snds (s, c)" by simp
    from Dir.IH[OF sc this pin] show "take (length dir) p = dir" .
  qed
  then obtain s where eq: "take (Suc (length dir)) p = dir @ [s]" by blast
  have "take (length dir) p = take (length dir) (take (Suc (length dir)) p)" by (simp add: min_def)
  also have "\<dots> = take (length dir) (dir @ [s])" using eq by (simp only:)
  also have "\<dots> = dir" by simp
  finally show ?case .
qed (simp_all add: found_eq)

lemma foundItems_below':
  assumes "p \<in> set (foundItems ign r dir es)"
  shows "\<exists>s. s \<in> fst ` set es \<and> take (Suc (length dir)) p = dir @ [s]"
proof -
  have "\<And>s c dir p. (s, c) \<in> set es \<Longrightarrow> p \<in> set (found ign r dir c) \<Longrightarrow> take (length dir) p = dir"
    using found_below by blast
  from foundItems_below[where es=es and ign=ign and r=r, OF this assms] show ?thesis .
qed

lemma foundItems_distinct:
  assumes "\<And>s c dir. (s, c) \<in> set es \<Longrightarrow> distinct (found ign r dir c)"
    and "distinct (map fst es)"
  shows "distinct (foundItems ign r dir es)"
  using assms
proof (induction es)
  case Nil
  then show ?case by simp
next
  case (Cons a es)
  obtain s c where a: "a = (s, c)" by (cases a)
  have s: "s \<notin> fst ` set es" "distinct (map fst es)" using Cons.prems(2) a by (simp_all add: image_iff)
  have C: "distinct (found ign r (dir @ [s]) c)" using Cons.prems(1)[of s c "dir @ [s]"] a by simp
  have IH: "distinct (foundItems ign r dir es)"
  proof (rule Cons.IH[OF _ s(2)])
    fix s c dir assume "(s, c) \<in> set es"
    then show "distinct (found ign r dir c)" using Cons.prems(1)[of s c dir] by simp
  qed
  have sep1: "dir @ [s] \<notin> set (foundItems ign r dir es)"
  proof
    assume "dir @ [s] \<in> set (foundItems ign r dir es)"
    from foundItems_below'[OF this]
    obtain s' where "s' \<in> fst ` set es" "take (Suc (length dir)) (dir @ [s]) = dir @ [s']"
      by (elim exE conjE)
    then show False using s(1) by simp
  qed
  have sep2: "set (found ign r (dir @ [s]) c) \<inter> set (foundItems ign r dir es) = {}"
  proof (rule ccontr)
    assume "set (found ign r (dir @ [s]) c) \<inter> set (foundItems ign r dir es) \<noteq> {}"
    then obtain p where p: "p \<in> set (found ign r (dir @ [s]) c)" "p \<in> set (foundItems ign r dir es)" by blast
    from p(1) have 1: "take (Suc (length dir)) p = dir @ [s]" using found_below[of p ign r "dir @ [s]" c] by simp
    from foundItems_below'[OF p(2)]
    obtain s' where 2: "s' \<in> fst ` set es" "take (Suc (length dir)) p = dir @ [s']"
      by (elim exE conjE)
    from 1 2 have "s = s'" by simp
    then show False using s(1) 2(1) by simp
  qed
  show ?case
  proof (cases "ign (path_relative r (path_join dir s))")
    case True
    then show ?thesis using IH by (simp add: a foundItems_Cons)
  next
    case False
    show ?thesis
    proof (cases "stat c")
      case (Inl e)
      then show ?thesis using False by (simp add: a foundItems_Cons)
    next
      case (Inr stats)
      show ?thesis
      proof (cases "isDirectory stats")
        case F: False
        then show ?thesis using False Inr IH sep1 by (simp add: a foundItems_Cons path_join_def)
      next
        case True
        show ?thesis
        proof (cases "outcome ign r (path_join dir s) c")
          case None
          then show ?thesis using False Inr True IH C sep2 by (simp add: a foundItems_Cons path_join_def)
        next
          case (Some e)
          then show ?thesis using False Inr True C by (simp add: a foundItems_Cons path_join_def)
        qed
      qed
    qed
  qed
qed

lemma found_distinct: "distinct_names nd \<Longrightarrow> distinct (found ign r dir nd)"
proof (induction nd arbitrary: dir)
  case (Dir es)
  have "distinct (foundItems ign r dir es)"
  proof (rule foundItems_distinct)
    fix s c dir assume sc: "(s, c) \<in> set es"
    then have dn: "distinct_names c" using Dir.prems by (auto simp: list_all_iff)
    have "c \<in> Basic_BNFs.snds (s, c)" by simp
    from Dir.IH[OF sc this dn] show "distinct (found ign r dir c)" .
  next
    show "distinct (map fst es)" using Dir.prems by simp
  qed
  then show ?case by (simp add: found_eq)
qed (simp_all add: found_eq)

subsection \<open>What a scan touches\<close>

lemma unignored_snoc:
  "unignored ign p0 (pre @ [s]) = (unignored ign p0 pre \<and> \<not> ign (path_string (p0 @ pre @ [s])))"
  by (induction pre arbitrary: p0) auto

lemma unignored_iff:
  "unignored ign pre rel = (\<forall>k. 0 < k \<and> k \<le> length rel \<longrightarrow> \<not> ign (path_string (pre @ take k rel)))"
proof (induction rel arbitrary: pre)
  case Nil
  then show ?case by simp
next
  case (Cons s ss)
  show ?case
  proof
    assume u: "unignored ign pre (s # ss)"
    show "\<forall>k. 0 < k \<and> k \<le> length (s # ss) \<longrightarrow> \<not> ign (path_string (pre @ take k (s # ss)))"
    proof (intro allI impI)
      fix k assume k: "0 < k \<and> k \<le> length (s # ss)"
      then obtain j where j: "k = Suc j" by (cases k) auto
      show "\<not> ign (path_string (pre @ take k (s # ss)))"
      proof (cases j)
        case 0
        then show ?thesis using u j by simp
      next
        case (Suc i)
        have "unignored ign (pre @ [s]) ss" using u by simp
        then have "\<not> ign (path_string ((pre @ [s]) @ take j ss))"
          using Cons.IH[of "pre @ [s]"] k j Suc by auto
        then show ?thesis using j by simp
      qed
    qed
  next
    assume a: "\<forall>k. 0 < k \<and> k \<le> length (s # ss) \<longrightarrow> \<not> ign (path_string (pre @ take k (s # ss)))"
    have 1: "\<not> ign (path_string (pre @ [s]))" using a[rule_format, of 1] by simp
    have "\<forall>k. 0 < k \<and> k \<le> length ss \<longrightarrow> \<not> ign (path_string ((pre @ [s]) @ take k ss))"
    proof (intro allI impI)
      fix k assume "0 < k \<and> k \<le> length ss"
      then show "\<not> ign (path_string ((pre @ [s]) @ take k ss))" using a[rule_format, of "Suc k"] by simp
    qed
    then have "unignored ign (pre @ [s]) ss" using Cons.IH[of "pre @ [s]"] by simp
    then show "unignored ign pre (s # ss)" using 1 by simp
  qed
qed

lemma eventsItems_touch:
  assumes "\<And>s c pre ev d. (s, c) \<in> set es \<Longrightarrow> unignored ign [] pre \<Longrightarrow> ev \<in> set (events ign r (r @ pre) c) \<Longrightarrow>
      touched ev = Some d \<Longrightarrow> take (length r) d = r \<and> unignored ign [] (drop (length r) d)"
    and "unignored ign [] pre"
    and "ev \<in> set (eventsItems ign r (r @ pre) es)"
    and "touched ev = Some d"
  shows "take (length r) d = r \<and> unignored ign [] (drop (length r) d)"
  using assms
proof (induction es)
  case Nil
  then show ?case by simp
next
  case (Cons a es)
  obtain s c where a: "a = (s, c)" by (cases a)
  have IH: "ev \<in> set (eventsItems ign r (r @ pre) es) \<Longrightarrow> ?case"
  proof (rule Cons.IH[OF _ Cons.prems(2) _ Cons.prems(4)])
    fix s c pre ev d
    assume "(s, c) \<in> set es" "unignored ign [] pre" "ev \<in> set (events ign r (r @ pre) c)" "touched ev = Some d"
    then show "take (length r) d = r \<and> unignored ign [] (drop (length r) d)"
      using Cons.prems(1)[of s c pre ev d] by simp
  qed
  have C: "\<not> ign (path_string (pre @ [s])) \<Longrightarrow> ev \<in> set (events ign r (r @ (pre @ [s])) c) \<Longrightarrow> ?case"
  proof -
    assume n: "\<not> ign (path_string (pre @ [s]))" and e: "ev \<in> set (events ign r (r @ (pre @ [s])) c)"
    have u: "unignored ign [] (pre @ [s])" using n Cons.prems(2) by (simp add: unignored_snoc)
    have sc: "(s, c) \<in> set (a # es)" by (simp add: a)
    from Cons.prems(1)[OF sc u e Cons.prems(4)] show ?case .
  qed
  have S: "\<not> ign (path_string (pre @ [s])) \<Longrightarrow> ev = Stat (r @ (pre @ [s])) \<Longrightarrow> ?case"
  proof -
    assume n: "\<not> ign (path_string (pre @ [s]))" and e: "ev = Stat (r @ (pre @ [s]))"
    have u: "unignored ign [] (pre @ [s])" using n Cons.prems(2) by (simp add: unignored_snoc)
    have "d = r @ (pre @ [s])" using e Cons.prems(4) by simp
    then show ?case using u by simp
  qed
  have "ev \<in> set (eventsItems ign r (r @ pre) ((s, c) # es))" using Cons.prems(3) a by simp
  then consider "ev = Query (path_string (pre @ [s]))"
    | "ev \<in> set (eventsItems ign r (r @ pre) es)"
    | "\<not> ign (path_string (pre @ [s]))" "ev = Stat (r @ (pre @ [s]))"
    | "\<not> ign (path_string (pre @ [s]))" "ev \<in> set (events ign r (r @ (pre @ [s])) c)"
    unfolding eventsItems_Cons path_relative_join path_join_append
    by (cases "ign (path_string (pre @ [s]))"; cases "stat c"; cases "outcome ign r (r @ pre @ [s]) c")
       (auto split: if_splits)
  then show ?case
  proof cases
    case 1
    then show ?thesis using Cons.prems(4) by simp
  next
    case 2
    then show ?thesis by (rule IH)
  next
    case 3
    then show ?thesis by (rule S)
  next
    case 4
    then show ?thesis by (rule C)
  qed
qed

lemma events_touch:
  assumes "unignored ign [] pre" "ev \<in> set (events ign r (r @ pre) nd)" "touched ev = Some d"
  shows "take (length r) d = r \<and> unignored ign [] (drop (length r) d)"
  using assms
proof (induction nd arbitrary: pre ev d)
  case (Dir es)
  from Dir.prems(2) consider "ev = Readdir (r @ pre)" | "ev \<in> set (eventsItems ign r (r @ pre) es)"
    by (auto simp: events_eq)
  then show ?case
  proof cases
    case 1
    then have "d = r @ pre" using Dir.prems(3) by simp
    then show ?thesis using Dir.prems(1) by simp
  next
    case 2
    show ?thesis
    proof (rule eventsItems_touch[OF _ Dir.prems(1) 2 Dir.prems(3)])
      fix s c pre ev d
      assume sc: "(s, c) \<in> set es" and u: "unignored ign [] pre"
        and e: "ev \<in> set (events ign r (r @ pre) c)" and t: "touched ev = Some d"
      have "c \<in> Basic_BNFs.snds (s, c)" by simp
      from Dir.IH[OF sc this u e t] show "take (length r) d = r \<and> unignored ign [] (drop (length r) d)" .
    qed
  qed
next
  case (File x)
  then have "d = r @ pre" by (simp add: events_eq)
  then show ?case using File.prems(1) by simp
next
  case Socket
  then have "d = r @ pre" by (simp add: events_eq)
  then show ?case using Socket.prems(1) by simp
next
  case (NoRead x)
  then have "d = r @ pre" by (simp add: events_eq)
  then show ?case using NoRead.prems(1) by simp
next
  case (NoStat x)
  then have "d = r @ pre" by (simp add: events_eq)
  then show ?case using NoStat.prems(1) by simp
qed

text \<open>
  Whatever a scan lists or stats lies under the project root, and \<^verbatim>\<open>shouldIgnore\<close> is
  false of the root-relative path of every directory on the way down to it, itself
  included.
\<close>

lemma scan_prunes_ignored:
  assumes "ev \<in> set (fst (scanFiles ign r nd []))" and "ev = Readdir d \<or> ev = Stat d"
  shows "take (length r) d = r \<and>
         (\<forall>k. length r < k \<and> k \<le> length d \<longrightarrow> \<not> ign (path_relative r (take k d)))"
proof -
  have ev: "ev \<in> set (events ign r (r @ []) nd)" using assms(1) by (simp add: scanFiles_eq)
  have t: "touched ev = Some d" using assms(2) by auto
  have u0: "unignored ign [] []" by simp
  from events_touch[OF u0 ev t] have 1: "take (length r) d = r" and 2: "unignored ign [] (drop (length r) d)"
    by blast+
  have d: "d = r @ drop (length r) d" using 1 by (metis append_take_drop_id)
  have "\<not> ign (path_relative r (take k d))" if k: "length r < k \<and> k \<le> length d" for k
  proof -
    let ?rel = "drop (length r) d"
    let ?j = "k - length r"
    have j: "0 < ?j \<and> ?j \<le> length ?rel" using k by auto
    have "\<not> ign (path_string ([] @ take ?j ?rel))" using 2 j unfolding unignored_iff by blast
    moreover have "take k d = r @ take ?j ?rel"
    proof -
      have "take k (r @ ?rel) = r @ take ?j ?rel" using k by simp
      then show ?thesis using d by simp
    qed
    ultimately show ?thesis by simp
  qed
  then show ?thesis using 1 by blast
qed

subsection \<open>The root does not matter to the matcher\<close>

lemma queries_append [simp]: "queries (xs @ ys) = queries xs @ queries ys"
  by (induction xs rule: queries.induct) simp_all

lemma queries_shift [simp]: "queries (map (shift_event r) evs) = queries evs"
  by (induction evs rule: queries.induct) simp_all

lemma path_relative_Nil [simp]: "path_relative [] p = path_string p"
  by (simp add: path_relative_def)

lemma Items_shift:
  assumes "\<And>s c pre. (s, c) \<in> set es \<Longrightarrow>
      outcome ign r (r @ pre) c = outcome ign [] pre c \<and>
      found ign r (r @ pre) c = map ((@) r) (found ign [] pre c) \<and>
      events ign r (r @ pre) c = map (shift_event r) (events ign [] pre c)"
  shows "outcomeItems ign r (r @ pre) es = outcomeItems ign [] pre es \<and>
      foundItems ign r (r @ pre) es = map ((@) r) (foundItems ign [] pre es) \<and>
      eventsItems ign r (r @ pre) es = map (shift_event r) (eventsItems ign [] pre es)"
  using assms
proof (induction es)
  case Nil
  then show ?case by simp
next
  case (Cons a es)
  obtain s c where a: "a = (s, c)" by (cases a)
  have IH: "outcomeItems ign r (r @ pre) es = outcomeItems ign [] pre es"
      "foundItems ign r (r @ pre) es = map ((@) r) (foundItems ign [] pre es)"
      "eventsItems ign r (r @ pre) es = map (shift_event r) (eventsItems ign [] pre es)"
  proof -
    have "outcomeItems ign r (r @ pre) es = outcomeItems ign [] pre es \<and>
      foundItems ign r (r @ pre) es = map ((@) r) (foundItems ign [] pre es) \<and>
      eventsItems ign r (r @ pre) es = map (shift_event r) (eventsItems ign [] pre es)"
    proof (rule Cons.IH)
      fix s c pre assume "(s, c) \<in> set es"
      then show "outcome ign r (r @ pre) c = outcome ign [] pre c \<and>
        found ign r (r @ pre) c = map ((@) r) (found ign [] pre c) \<and>
        events ign r (r @ pre) c = map (shift_event r) (events ign [] pre c)"
        using Cons.prems[of s c pre] by simp
    qed
    then show "outcomeItems ign r (r @ pre) es = outcomeItems ign [] pre es"
      "foundItems ign r (r @ pre) es = map ((@) r) (foundItems ign [] pre es)"
      "eventsItems ign r (r @ pre) es = map (shift_event r) (eventsItems ign [] pre es)"
      by blast+
  qed
  have C: "outcome ign r (r @ (pre @ [s])) c = outcome ign [] (pre @ [s]) c"
      "found ign r (r @ (pre @ [s])) c = map ((@) r) (found ign [] (pre @ [s]) c)"
      "events ign r (r @ (pre @ [s])) c = map (shift_event r) (events ign [] (pre @ [s]) c)"
    using Cons.prems[of s c "pre @ [s]"] a by simp_all
  have j: "path_join (r @ pre) s = r @ (pre @ [s])" "path_join pre s = pre @ [s]"
    by (simp_all add: path_join_def)
  have q: "path_relative r (r @ (pre @ [s])) = path_string (pre @ [s])"
    by (rule path_relative_append)
  have 1: "outcomeItems ign r (r @ pre) (a # es) = outcomeItems ign [] pre (a # es)"
    unfolding a outcomeItems_Cons j q path_relative_Nil C IH ..
  have 2: "foundItems ign r (r @ pre) (a # es) = map ((@) r) (foundItems ign [] pre (a # es))"
    unfolding a foundItems_Cons j q path_relative_Nil C IH
    by (simp split: sum.splits option.splits)
  have 3: "eventsItems ign r (r @ pre) (a # es) = map (shift_event r) (eventsItems ign [] pre (a # es))"
    unfolding a eventsItems_Cons j q path_relative_Nil C IH
    by (simp split: sum.splits option.splits)
  show ?case using 1 2 3 by blast
qed

lemma scan_shift:
  "outcome ign r (r @ pre) nd = outcome ign [] pre nd \<and>
   found ign r (r @ pre) nd = map ((@) r) (found ign [] pre nd) \<and>
   events ign r (r @ pre) nd = map (shift_event r) (events ign [] pre nd)"
proof (induction nd arbitrary: pre)
  case (Dir es)
  have "outcomeItems ign r (r @ pre) es = outcomeItems ign [] pre es \<and>
      foundItems ign r (r @ pre) es = map ((@) r) (foundItems ign [] pre es) \<and>
      eventsItems ign r (r @ pre) es = map (shift_event r) (eventsItems ign [] pre es)"
  proof (rule Items_shift)
    fix s c pre assume sc: "(s, c) \<in> set es"
    have "c \<in> Basic_BNFs.snds (s, c)" by simp
    from Dir.IH[OF sc this] show "outcome ign r (r @ pre) c = outcome ign [] pre c \<and>
      found ign r (r @ pre) c = map ((@) r) (found ign [] pre c) \<and>
      events ign r (r @ pre) c = map (shift_event r) (events ign [] pre c)" .
  qed
  then show ?case by (simp add: outcome_eq found_eq events_eq)
qed (simp_all add: outcome_eq found_eq events_eq)

lemma queries_root: "queries (events ign r r nd) = queries (events ign r' r' nd)"
proof -
  have "queries (events ign r (r @ []) nd) = queries (events ign [] [] nd)"
    unfolding scan_shift[THEN conjunct2, THEN conjunct2] by simp
  moreover have "queries (events ign r' (r' @ []) nd) = queries (events ign [] [] nd)"
    unfolding scan_shift[THEN conjunct2, THEN conjunct2] by simp
  ultimately show ?thesis by simp
qed

lemma eventsItems_query:
  assumes "\<And>s c pre q. (s, c) \<in> set es \<Longrightarrow> Query q \<in> set (events ign r (r @ pre) c) \<Longrightarrow>
      \<exists>rel c'. rel \<noteq> [] \<and> node_at c rel c' \<and> q = path_string (pre @ rel)"
    and "Query q \<in> set (eventsItems ign r (r @ pre) es)"
  shows "\<exists>s c rel c'. (s, c) \<in> set es \<and> node_at c rel c' \<and> q = path_string (pre @ s # rel)"
  using assms
proof (induction es)
  case Nil
  then show ?case by simp
next
  case (Cons a es)
  obtain s c where a: "a = (s, c)" by (cases a)
  have IH: "Query q \<in> set (eventsItems ign r (r @ pre) es) \<Longrightarrow>
      \<exists>s c rel c'. (s, c) \<in> set es \<and> node_at c rel c' \<and> q = path_string (pre @ s # rel)"
  proof (rule Cons.IH)
    fix s c pre q assume "(s, c) \<in> set es" "Query q \<in> set (events ign r (r @ pre) c)"
    then show "\<exists>rel c'. rel \<noteq> [] \<and> node_at c rel c' \<and> q = path_string (pre @ rel)"
      using Cons.prems(1)[of s c q pre] by simp
  qed
  have "Query q \<in> set (eventsItems ign r (r @ pre) ((s, c) # es))" using Cons.prems(2) a by simp
  then consider "q = path_string (pre @ [s])"
    | "Query q \<in> set (eventsItems ign r (r @ pre) es)"
    | "Query q \<in> set (events ign r (r @ (pre @ [s])) c)"
    unfolding eventsItems_Cons path_relative_join path_join_append
    by (cases "ign (path_string (pre @ [s]))"; cases "stat c"; cases "outcome ign r (r @ pre @ [s]) c")
       (auto split: if_splits)
  then show ?case
  proof cases
    case 1
    have "(s, c) \<in> set (a # es) \<and> node_at c [] c \<and> q = path_string (pre @ s # [])"
      using 1 a by simp
    then show ?thesis by blast
  next
    case 2
    from IH[OF 2] obtain s' c' rel c'' where
      "(s', c') \<in> set es" "node_at c' rel c''" "q = path_string (pre @ s' # rel)" by (elim exE conjE)
    then have "(s', c') \<in> set (a # es) \<and> node_at c' rel c'' \<and> q = path_string (pre @ s' # rel)" by simp
    then show ?thesis by blast
  next
    case 3
    have sc: "(s, c) \<in> set (a # es)" by (simp add: a)
    from Cons.prems(1)[OF sc 3] obtain rel c' where
      "rel \<noteq> []" "node_at c rel c'" "q = path_string ((pre @ [s]) @ rel)" by (elim exE conjE)
    then have "(s, c) \<in> set (a # es) \<and> node_at c rel c' \<and> q = path_string (pre @ s # rel)"
      using sc by simp
    then show ?thesis by blast
  qed
qed

lemma events_query:
  "Query q \<in> set (events ign r (r @ pre) nd) \<Longrightarrow>
     \<exists>rel c. rel \<noteq> [] \<and> node_at nd rel c \<and> q = path_string (pre @ rel)"
proof (induction nd arbitrary: pre q)
  case (Dir es)
  have 2: "Query q \<in> set (eventsItems ign r (r @ pre) es)" using Dir.prems by (simp add: events_eq)
  have "\<exists>s c rel c'. (s, c) \<in> set es \<and> node_at c rel c' \<and> q = path_string (pre @ s # rel)"
  proof (rule eventsItems_query[OF _ 2])
    fix s c pre q assume sc: "(s, c) \<in> set es" and e: "Query q \<in> set (events ign r (r @ pre) c)"
    have "c \<in> Basic_BNFs.snds (s, c)" by simp
    from Dir.IH[OF sc this e] show "\<exists>rel c'. rel \<noteq> [] \<and> node_at c rel c' \<and> q = path_string (pre @ rel)" .
  qed
  then obtain s c rel c' where "(s, c) \<in> set es" "node_at c rel c'" "q = path_string (pre @ s # rel)"
    by (elim exE conjE)
  then have "s # rel \<noteq> [] \<and> node_at (Dir es) (s # rel) c' \<and> q = path_string (pre @ s # rel)"
    by auto
  then show ?case by blast
qed (simp_all add: events_eq)

subsection \<open>The verdict\<close>

lemma isExcluded_eq:
  "isExcluded rules p isDir =
     foldl (update_verdict p isDir (inside_excluded rules p)) (inside_excluded rules p) rules"
  by (cases p) (simp_all add: inside_excluded_def Let_def)

lemma update_verdict_inside: "update_verdict p isDir True True rule = True"
  by (simp add: update_verdict_def)

lemma update_verdict_outside:
  "update_verdict p isDir False v rule = (if rule_matches rule p isDir then \<not> negation rule else v)"
  by (simp add: update_verdict_def)

lemma fold_inside: "foldl (update_verdict p isDir True) True rules = True"
  by (induction rules) (simp_all only: foldl_Nil foldl_Cons update_verdict_inside)

lemma fold_last:
  "foldl (update_verdict p isDir False) v rules =
     (case last_match rules p isDir of None \<Rightarrow> v | Some rule \<Rightarrow> \<not> negation rule)"
proof (induction rules arbitrary: v)
  case Nil
  then show ?case by simp
next
  case (Cons rule rules)
  have "foldl (update_verdict p isDir False) v (rule # rules) =
      foldl (update_verdict p isDir False) (update_verdict p isDir False v rule) rules"
    by simp
  also have "\<dots> = (case last_match rules p isDir of
      None \<Rightarrow> update_verdict p isDir False v rule | Some m \<Rightarrow> \<not> negation m)"
    by (rule Cons.IH)
  also have "\<dots> = (case last_match (rule # rules) p isDir of None \<Rightarrow> v | Some m \<Rightarrow> \<not> negation m)"
    by (cases "last_match rules p isDir") (simp_all add: update_verdict_outside)
  finally show ?case .
qed

lemma isExcluded_last:
  "isExcluded rules p isDir =
     (inside_excluded rules p \<or>
      (case last_match rules p isDir of None \<Rightarrow> False | Some rule \<Rightarrow> \<not> negation rule))"
proof (cases "inside_excluded rules p")
  case True
  then show ?thesis using fold_inside[of p isDir rules] by (simp add: isExcluded_eq)
next
  case False
  then show ?thesis using fold_last[of p isDir False rules] by (simp add: isExcluded_eq)
qed

lemma isExcluded_no_rules: "\<not> isExcluded [] p isDir"
proof (induction "[] :: GitignoreRule list" p isDir rule: isExcluded.induct)
  case (1 isDir)
  then show ?case by simp
next
  case (2 s ss isDir)
  then have "\<not> list_ex (\<lambda>a. isExcluded [] a True) (ancestors (s # ss))"
    unfolding list_ex_iff by blast
  then show ?case by simp
qed

lemma ignores_no_rules: "\<not> ignores [] filePath"
  by (simp add: ignores_def isExcluded_no_rules)

subsection \<open>Names and readable trees\<close>

lemma valid_names_at: "valid_names nd \<Longrightarrow> node_at nd rel c \<Longrightarrow> list_all valid_name rel"
proof (induction rel arbitrary: nd)
  case Nil
  then show ?case by simp
next
  case (Cons s ss)
  from Cons.prems(2) obtain es k where nd: "nd = Dir es" and k: "(s, k) \<in> set es" "node_at k ss c"
    by (cases nd) auto
  have "valid_name s" "valid_names k" using Cons.prems(1) nd k(1) by (auto simp: list_all_iff)
  then show ?case using Cons.IH[of k] k(2) by simp
qed

lemma readable_at: "readable nd \<Longrightarrow> node_at nd rel c \<Longrightarrow> readable c"
proof (induction rel arbitrary: nd)
  case Nil
  then show ?case by simp
next
  case (Cons s ss)
  from Cons.prems(2) obtain es k where nd: "nd = Dir es" and k: "(s, k) \<in> set es" "node_at k ss c"
    by (cases nd) auto
  have "readable k" using Cons.prems(1) nd k(1) by (auto simp: list_all_iff)
  then show ?case using Cons.IH[of k] k(2) by simp
qed

lemma readable_not_fails: "readable c \<Longrightarrow> \<not> fails c"
  by (cases c) (simp_all add: fails_def)

lemma readable_not_bad: "readable nd \<Longrightarrow> \<not> bad ign pre nd"
  unfolding bad_def using readable_at readable_not_fails by blast

lemma unreadable_fails: "\<not> readable c \<Longrightarrow> isl (readdir c) \<Longrightarrow> fails c"
  by (cases c) (simp_all add: fails_def)

lemma unreadable_bad:
  assumes "\<And>p. \<not> ign p"
  shows "\<not> readable nd \<Longrightarrow> isl (readdir nd) \<or> bad ign pre nd"
proof (induction nd arbitrary: pre)
  case (Dir es)
  then obtain s k where sk: "(s, k) \<in> set es" "\<not> readable k"
    by (auto simp: list_all_iff)
  have "k \<in> Basic_BNFs.snds (s, k)" by simp
  from Dir.IH[OF sk(1) this sk(2), of "pre @ [s]"] have "fails k \<or> bad ign (pre @ [s]) k"
    using unreadable_fails[OF sk(2)] by blast
  then have "bad ign pre (Dir es)" unfolding bad_Dir using sk(1) assms by blast
  then show ?case by simp
qed simp_all

lemma path_string_head:
  "rel \<noteq> [] \<Longrightarrow> hd rel \<noteq> [] \<Longrightarrow> path_string rel \<noteq> [] \<and> hd (path_string rel) = hd (hd rel)"
  by (cases rel rule: path_string.cases) simp_all

lemma unignored_never: "(\<And>p. \<not> ign p) \<Longrightarrow> unignored ign pre rel"
  by (induction rel arbitrary: pre) simp_all

subsection \<open>The order of a listing does not matter\<close>

lemma belowItems_set: "set es = set es' \<Longrightarrow> belowItems ign pre es = belowItems ign pre es'"
  by (simp add: belowItems_def)

lemma bad_Dir_set: "set es = set es' \<Longrightarrow> bad ign pre (Dir es) = bad ign pre (Dir es')"
  by (simp add: bad_Dir)

lemma fails_Dir [simp]: "fails (Dir es) = False"
  by (simp add: fails_def)

lemma alike_child:
  assumes "alike c c'"
  shows "alike (Dir (xs @ (s, c) # ys)) (Dir (xs @ (s, c') # ys))"
proof -
  have f: "fails c = fails c'" and b: "\<And>ign pre. bad ign pre c = bad ign pre c'"
    and w: "\<And>ign pre. below ign pre c = below ign pre c'"
    using assms unfolding alike_def by blast+
  have 1: "bad ign pre (Dir (xs @ (s, c) # ys)) = bad ign pre (Dir (xs @ (s, c') # ys))" for ign pre
  proof -
    have "bad ign pre (Dir (xs @ (s, c) # ys)) =
        ((\<not> ign (path_string (pre @ [s])) \<and> (fails c \<or> bad ign (pre @ [s]) c))
         \<or> (\<exists>t k. (t, k) \<in> set xs \<union> set ys \<and> \<not> ign (path_string (pre @ [t])) \<and> (fails k \<or> bad ign (pre @ [t]) k)))"
      unfolding bad_Dir by auto
    also have "\<dots> = ((\<not> ign (path_string (pre @ [s])) \<and> (fails c' \<or> bad ign (pre @ [s]) c'))
         \<or> (\<exists>t k. (t, k) \<in> set xs \<union> set ys \<and> \<not> ign (path_string (pre @ [t])) \<and> (fails k \<or> bad ign (pre @ [t]) k)))"
      unfolding f b ..
    also have "\<dots> = bad ign pre (Dir (xs @ (s, c') # ys))"
      unfolding bad_Dir by auto
    finally show ?thesis .
  qed
  have 2: "below ign pre (Dir (xs @ (s, c) # ys)) = below ign pre (Dir (xs @ (s, c') # ys))" for ign pre
  proof -
    have "belowItems ign pre (xs @ (s, c) # ys) =
        {s # rel | rel. \<not> ign (path_string (pre @ [s])) \<and> rel \<in> below ign (pre @ [s]) c}
        \<union> belowItems ign pre (xs @ ys)"
      unfolding belowItems_def by auto
    also have "\<dots> = {s # rel | rel. \<not> ign (path_string (pre @ [s])) \<and> rel \<in> below ign (pre @ [s]) c'}
        \<union> belowItems ign pre (xs @ ys)"
      unfolding w ..
    also have "\<dots> = belowItems ign pre (xs @ (s, c') # ys)"
      unfolding belowItems_def by auto
    finally show ?thesis by (simp add: below_Dir)
  qed
  show ?thesis unfolding alike_def using 1 2 by simp
qed

lemma relisted_alike: "relisted nd nd' \<Longrightarrow> alike nd nd'"
proof (induction rule: relisted.induct)
  case (relisted_same nd)
  then show ?case by (simp add: alike_def)
next
  case (relisted_swap xs a b ys)
  have "set (xs @ a # b # ys) = set (xs @ b # a # ys)" by auto
  then show ?case
    unfolding alike_def using bad_Dir_set belowItems_set by (simp add: below_Dir)
next
  case (relisted_child c c' xs s ys)
  then show ?case by (simp add: alike_child)
next
  case (relisted_trans nd nd' nd'')
  then show ?case unfolding alike_def by simp
qed
section \<open>Properties of the program\<close>

lemmas matcher_eval = rules_of_lines_def List.map_filter_def parseLine_def blank_def directory_suffix_def
  rule_matches_def anchored_def pattern_segments_def update_verdict_def ignores_def shouldIgnore_def
  in_class_def

lemmas scan_eval = scanFiles_def scanDirectory.simps emit_def push_def path_join_def path_relative_def Let_def

subsection \<open>The matcher\<close>

text \<open>
  C1, as amended. For every rule list, path and kind, the verdict is "excluded" when
  the path lies inside an excluded directory; otherwise it is the verdict of the last
  rule in file order that matches the path, and "included" when no rule matches. With
  the rules \<^verbatim>\<open>*.log\<close>, \<^verbatim>\<open>!important.log\<close>, the path \<^verbatim>\<open>important.log\<close> is not excluded and
  \<^verbatim>\<open>debug.log\<close> is.
\<close>

theorem isExcluded_last_match:
  "isExcluded rules p isDir =
     (inside_excluded rules p \<or>
      (case last_match rules p isDir of None \<Rightarrow> False | Some rule \<Rightarrow> \<not> negation rule))
   \<and> \<not> shouldIgnore \<lparr> ig = rules_of_lines [''*.log'', ''!important.log''] \<rparr> ''important.log''
   \<and> shouldIgnore \<lparr> ig = rules_of_lines [''*.log'', ''!important.log''] \<rparr> ''debug.log''"
proof (intro conjI)
  show "isExcluded rules p isDir =
     (inside_excluded rules p \<or>
      (case last_match rules p isDir of None \<Rightarrow> False | Some rule \<Rightarrow> \<not> negation rule))"
    by (rule isExcluded_last)
  show "\<not> shouldIgnore \<lparr> ig = rules_of_lines [''*.log'', ''!important.log''] \<rparr> ''important.log''"
    by (simp add: matcher_eval)
  show "shouldIgnore \<lparr> ig = rules_of_lines [''*.log'', ''!important.log''] \<rparr> ''debug.log''"
    by (simp add: matcher_eval)
qed

text \<open>
  C1, at an input: for \<^verbatim>\<open>important.log\<close> under the rules \<^verbatim>\<open>*.log\<close>, \<^verbatim>\<open>!important.log\<close>
  no ancestor is excluded, the last matching rule is the negated one, and the verdict
  is "included".
\<close>

theorem isExcluded_last_match_witness:
  "\<not> inside_excluded (rules_of_lines [''*.log'', ''!important.log'']) [''important.log'']
   \<and> last_match (rules_of_lines [''*.log'', ''!important.log'']) [''important.log''] False
       = Some \<lparr> pattern = ''important.log'', negation = True, directory = False \<rparr>
   \<and> \<not> isExcluded (rules_of_lines [''*.log'', ''!important.log'']) [''important.log''] False"
proof -
  have 1: "\<not> inside_excluded (rules_of_lines [''*.log'', ''!important.log'']) [''important.log'']"
    by (simp add: inside_excluded_def)
  have 2: "last_match (rules_of_lines [''*.log'', ''!important.log'']) [''important.log''] False
       = Some \<lparr> pattern = ''important.log'', negation = True, directory = False \<rparr>"
    by (simp add: matcher_eval)
  from isExcluded_last_match[of "rules_of_lines [''*.log'', ''!important.log'']" "[''important.log'']" False, THEN conjunct1] 1 2
  have "\<not> isExcluded (rules_of_lines [''*.log'', ''!important.log'']) [''important.log''] False"
    by simp
  with 1 2 show ?thesis by (intro conjI)
qed

text \<open>
  C1 as stated fails: under the rules \<^verbatim>\<open>build/\<close>, \<^verbatim>\<open>!build/keep.txt\<close> the last rule that
  matches \<^verbatim>\<open>build/keep.txt\<close> is the negated one, whose verdict is "included", and the
  path is excluded.
\<close>

theorem last_match_overruled:
  "isExcluded (rules_of_lines [''build/'', ''!build/keep.txt'']) [''build'', ''keep.txt''] False
   \<and> map_option negation
        (last_match (rules_of_lines [''build/'', ''!build/keep.txt'']) [''build'', ''keep.txt''] False)
       = Some True"
  by (simp add: matcher_eval)

text \<open>
  C2. For every rule list under which a directory is excluded, every path inside that
  directory is excluded, whatever negated rules match it; with the rules \<^verbatim>\<open>build/\<close>,
  \<^verbatim>\<open>!build/keep.txt\<close>, the path \<^verbatim>\<open>build/keep.txt\<close> is excluded.
\<close>

theorem excluded_directory_not_reincluded:
  "(a \<in> set (ancestors p) \<and> isExcluded rules a True \<longrightarrow> isExcluded rules p isDir)
   \<and> shouldIgnore \<lparr> ig = rules_of_lines [''build/'', ''!build/keep.txt''] \<rparr> ''build/keep.txt''"
proof (intro conjI impI)
  assume "a \<in> set (ancestors p) \<and> isExcluded rules a True"
  then have "inside_excluded rules p" unfolding inside_excluded_def list_ex_iff by blast
  then show "isExcluded rules p isDir" by (simp add: isExcluded_last)
next
  show "shouldIgnore \<lparr> ig = rules_of_lines [''build/'', ''!build/keep.txt''] \<rparr> ''build/keep.txt''"
    by (simp add: matcher_eval)
qed

text \<open>
  C2, at an input: \<^verbatim>\<open>build\<close> is an ancestor of \<^verbatim>\<open>build/keep.txt\<close> and is excluded as a
  directory, the negated rule matches the file, and the file is excluded.
\<close>

theorem excluded_directory_not_reincluded_witness:
  "[''build''] \<in> set (ancestors [''build'', ''keep.txt''])
   \<and> isExcluded (rules_of_lines [''build/'', ''!build/keep.txt'']) [''build''] True
   \<and> rule_matches \<lparr> pattern = ''build/keep.txt'', negation = True, directory = False \<rparr> [''build'', ''keep.txt''] False
   \<and> isExcluded (rules_of_lines [''build/'', ''!build/keep.txt'']) [''build'', ''keep.txt''] False"
proof -
  have 1: "[''build''] \<in> set (ancestors [''build'', ''keep.txt''])" by simp
  have 2: "isExcluded (rules_of_lines [''build/'', ''!build/keep.txt'']) [''build''] True"
    by (simp add: matcher_eval)
  have 3: "rule_matches \<lparr> pattern = ''build/keep.txt'', negation = True, directory = False \<rparr> [''build'', ''keep.txt''] False"
    by (simp add: matcher_eval)
  from excluded_directory_not_reincluded[of "[''build'']" "[''build'', ''keep.txt'']"
      "rules_of_lines [''build/'', ''!build/keep.txt'']" False] 1 2
  have 4: "isExcluded (rules_of_lines [''build/'', ''!build/keep.txt'']) [''build'', ''keep.txt''] False" by blast
  from 1 2 3 4 show ?thesis by (intro conjI)
qed

text \<open>
  C7. When there is no \<^verbatim>\<open>.gitignore\<close> at the project root, the constructor of
  \<^verbatim>\<open>GitignoreParser\<close> succeeds with an empty rule set, and \<^verbatim>\<open>shouldIgnore\<close> is false of
  every path.
\<close>

theorem missing_gitignore_excludes_nothing:
  "\<not> existsSync (entry projectRoot ''.gitignore'') \<Longrightarrow>
     new_GitignoreParser projectRoot = Inr \<lparr> ig = [] \<rparr> \<and> \<not> shouldIgnore \<lparr> ig = [] \<rparr> filePath"
  by (simp add: new_GitignoreParser_def loadGitignore_def shouldIgnore_def ignores_no_rules)

text \<open>C7, at an input: a project that holds one file and no \<^verbatim>\<open>.gitignore\<close>.\<close>

theorem missing_gitignore_excludes_nothing_witness:
  "\<not> existsSync (entry (Dir [(''a.txt'', File ''x'')]) ''.gitignore'')
   \<and> new_GitignoreParser (Dir [(''a.txt'', File ''x'')]) = Inr \<lparr> ig = [] \<rparr>
   \<and> \<not> shouldIgnore \<lparr> ig = [] \<rparr> ''a.txt''"
proof -
  have 1: "\<not> existsSync (entry (Dir [(''a.txt'', File ''x'')]) ''.gitignore'')" by (simp add: entry_def)
  from missing_gitignore_excludes_nothing[OF 1, of "''a.txt''"] 1 show ?thesis by blast
qed

subsection \<open>The walker\<close>

text \<open>
  C3 does not hold of the code for a directory-only rule. The project holds a
  \<^verbatim>\<open>.gitignore\<close> with the one line \<^verbatim>\<open>build/\<close> and a directory \<^verbatim>\<open>build\<close>. The matcher
  excludes the directory \<^verbatim>\<open>build\<close>, and the scan lists it all the same: the walker
  asks \<^verbatim>\<open>shouldIgnore\<close> about \<^verbatim>\<open>build\<close> before it stats it, with a string that does not
  say that it names a directory; it then asks about every entry of \<^verbatim>\<open>build\<close>. With the line \<^verbatim>\<open>build\<close> in place of \<^verbatim>\<open>build/\<close> the
  same scan does not list the directory: where \<^verbatim>\<open>shouldIgnore\<close> reports a path as
  ignored the walker prunes, whatever the matcher (\<open>scan_prunes_ignored\<close>).
\<close>

theorem directory_only_rule_not_pruned:
  "new_GitignoreParser (Dir [(''.gitignore'', File ''build/''), (''build'', Dir [(''keep.txt'', File ''x'')]), (''a.txt'', File ''y'')])
     = Inr \<lparr> ig = [\<lparr> pattern = ''build'', negation = False, directory = True \<rparr>] \<rparr>
   \<and> isExcluded [\<lparr> pattern = ''build'', negation = False, directory = True \<rparr>] [''build''] True
   \<and> Readdir [''proj'', ''build''] \<in> set (fst (scanFiles
        (shouldIgnore \<lparr> ig = [\<lparr> pattern = ''build'', negation = False, directory = True \<rparr>] \<rparr>) [''proj'']
        (Dir [(''.gitignore'', File ''build/''), (''build'', Dir [(''keep.txt'', File ''x'')]), (''a.txt'', File ''y'')]) []))
   \<and> Query ''build/keep.txt'' \<in> set (fst (scanFiles
        (shouldIgnore \<lparr> ig = [\<lparr> pattern = ''build'', negation = False, directory = True \<rparr>] \<rparr>) [''proj'']
        (Dir [(''.gitignore'', File ''build/''), (''build'', Dir [(''keep.txt'', File ''x'')]), (''a.txt'', File ''y'')]) []))
   \<and> new_GitignoreParser (Dir [(''.gitignore'', File ''build''), (''build'', Dir [(''keep.txt'', File ''x'')]), (''a.txt'', File ''y'')])
     = Inr \<lparr> ig = [\<lparr> pattern = ''build'', negation = False, directory = False \<rparr>] \<rparr>
   \<and> Readdir [''proj'', ''build''] \<notin> set (fst (scanFiles
        (shouldIgnore \<lparr> ig = [\<lparr> pattern = ''build'', negation = False, directory = False \<rparr>] \<rparr>) [''proj'']
        (Dir [(''.gitignore'', File ''build''), (''build'', Dir [(''keep.txt'', File ''x'')]), (''a.txt'', File ''y'')]) []))"
  by (simp add: matcher_eval scan_eval new_GitignoreParser_def loadGitignore_def entry_def add_def parseRules_def)

text \<open>
  C4, as amended. A scan returns a list exactly when the root can be listed and
  nothing the walk reaches fails: no entry whose \<^verbatim>\<open>stat\<close> fails and no directory whose
  listing fails, unless an ignored path shields it. Otherwise the scan fails as a
  whole: no list is returned, the failing call is the last call the scan makes, and
  the error of the scan is the error of that call.
\<close>

theorem scan_fails_as_a_whole:
  "((\<exists>fs. snd (scanFiles ign r nd tr) = Inr fs) =
      ((\<exists>es. readdir nd = Inr es) \<and>
       \<not> (\<exists>rel c. rel \<noteq> [] \<and> node_at nd rel c \<and> unignored ign [] rel \<and> fails c)))
   \<and> (\<forall>e. snd (scanFiles ign r nd tr) = Inl e \<longrightarrow>
        (readdir nd = Inl e \<and> last (fst (scanFiles ign r nd tr)) = Readdir r) \<or>
        (\<exists>rel c. rel \<noteq> [] \<and> node_at nd rel c \<and> unignored ign [] rel \<and>
           rejects c (r @ rel) = Some (last (fst (scanFiles ign r nd tr)), e)))"
proof (intro conjI allI impI)
  have "(\<exists>fs. snd (scanFiles ign r nd tr) = Inr fs) = (outcome ign r (r @ []) nd = None)"
    by (simp add: scanFiles_eq split: option.splits)
  also have "\<dots> = ((\<exists>es. readdir nd = Inr es) \<and> \<not> bad ign [] nd)"
    by (rule outcome_None)
  finally show "(\<exists>fs. snd (scanFiles ign r nd tr) = Inr fs) =
      ((\<exists>es. readdir nd = Inr es) \<and>
       \<not> (\<exists>rel c. rel \<noteq> [] \<and> node_at nd rel c \<and> unignored ign [] rel \<and> fails c))"
    unfolding bad_def .
next
  fix e assume "snd (scanFiles ign r nd tr) = Inl e"
  then have o: "outcome ign r (r @ []) nd = Some e"
    by (simp add: scanFiles_eq split: option.splits)
  have l: "last (fst (scanFiles ign r nd tr)) = last (events ign r (r @ []) nd)"
    by (simp add: scanFiles_eq)
  from outcome_Some[OF o] show
    "(readdir nd = Inl e \<and> last (fst (scanFiles ign r nd tr)) = Readdir r) \<or>
     (\<exists>rel c. rel \<noteq> [] \<and> node_at nd rel c \<and> unignored ign [] rel \<and>
        rejects c (r @ rel) = Some (last (fst (scanFiles ign r nd tr)), e))"
    unfolding l by simp
qed

text \<open>
  C4, at an input: a directory below the root cannot be listed; the scan stops at its
  \<^verbatim>\<open>readdir\<close> and fails with the error of that call.
\<close>

theorem scan_fails_as_a_whole_witness:
  "snd (scanFiles (\<lambda>p. False) [''proj'']
      (Dir [(''src'', Dir [(''secret'', NoRead EACCES), (''b.ts'', File ''y'')]), (''a.txt'', File ''x'')]) []) = Inl EACCES
   \<and> last (fst (scanFiles (\<lambda>p. False) [''proj'']
      (Dir [(''src'', Dir [(''secret'', NoRead EACCES), (''b.ts'', File ''y'')]), (''a.txt'', File ''x'')]) []))
       = Readdir [''proj'', ''src'', ''secret'']
   \<and> (\<exists>rel c. rel \<noteq> []
        \<and> node_at (Dir [(''src'', Dir [(''secret'', NoRead EACCES), (''b.ts'', File ''y'')]), (''a.txt'', File ''x'')]) rel c
        \<and> unignored (\<lambda>p. False) [] rel
        \<and> rejects c ([''proj''] @ rel) = Some (Readdir [''proj'', ''src'', ''secret''], EACCES))"
proof -
  let ?t = "Dir [(''src'', Dir [(''secret'', NoRead EACCES), (''b.ts'', File ''y'')]), (''a.txt'', File ''x'')]"
  have 1: "snd (scanFiles (\<lambda>p. False) [''proj''] ?t []) = Inl EACCES"
    by (simp add: scan_eval)
  have 2: "last (fst (scanFiles (\<lambda>p. False) [''proj''] ?t [])) = Readdir [''proj'', ''src'', ''secret'']"
    by (simp add: scan_eval)
  have 3: "readdir ?t \<noteq> Inl EACCES" by simp
  from scan_fails_as_a_whole[of "\<lambda>p. False" "[''proj'']" ?t "[]", THEN conjunct2, rule_format, OF 1]
  have "\<exists>rel c. rel \<noteq> [] \<and> node_at ?t rel c \<and> unignored (\<lambda>p. False) [] rel
        \<and> rejects c ([''proj''] @ rel) = Some (Readdir [''proj'', ''src'', ''secret''], EACCES)"
    unfolding 2 using 3 by blast
  with 1 2 show ?thesis by (intro conjI)
qed

text \<open>
  C4 as stated fails: with one entry deleted between the listing and its \<^verbatim>\<open>stat\<close>, the
  scan ends with the error of that \<^verbatim>\<open>stat\<close>; the two files that can be read are not
  returned.
\<close>

theorem scan_aborts_on_unreadable_entry:
  "snd (scanFiles (\<lambda>p. False) [''proj'']
      (Dir [(''a.txt'', File ''x''), (''gone'', NoStat ENOENT), (''b.txt'', File ''y'')]) []) = Inl ENOENT"
  by (simp add: scan_eval)



text \<open>
  C6, as amended. With a matcher that ignores nothing, as an absent ignore file gives,
  and a tree in which no listing holds a name twice: when every \<^verbatim>\<open>stat\<close> and every
  \<^verbatim>\<open>readdir\<close> under the root succeeds, the scan returns a list without duplicates whose
  members are exactly the paths of the entries under the root that are not
  directories, regular files or not; when one of them fails, the scan returns no list.
\<close>

theorem scan_without_rules_complete:
  assumes "distinct_names (Dir es)" and "\<And>p. \<not> ign p"
  shows "(readable (Dir es) \<longrightarrow>
           (\<exists>fs. snd (scanFiles ign r (Dir es) tr) = Inr fs \<and> distinct fs \<and>
              set fs = {r @ rel | rel c. node_at (Dir es) rel c \<and> nondirectory c}))
       \<and> (\<not> readable (Dir es) \<longrightarrow> (\<exists>e. snd (scanFiles ign r (Dir es) tr) = Inl e))"
proof (intro conjI impI)
  assume rd: "readable (Dir es)"
  have o: "outcome ign r (r @ []) (Dir es) = None"
    unfolding outcome_None using readable_not_bad[OF rd] by simp
  have s: "set (found ign r (r @ []) (Dir es)) = (\<lambda>rel. r @ [] @ rel) ` below ign [] (Dir es)"
    by (rule found_set[OF o])
  have b: "below ign [] (Dir es) = {rel. \<exists>c. node_at (Dir es) rel c \<and> nondirectory c}"
    unfolding below_def using unignored_never[of ign, OF assms(2)] by simp
  have d: "distinct (found ign r r (Dir es))" by (rule found_distinct[OF assms(1)])
  have "snd (scanFiles ign r (Dir es) tr) = Inr (found ign r r (Dir es))"
    using o by (simp add: scanFiles_eq)
  moreover have "set (found ign r r (Dir es)) = {r @ rel | rel c. node_at (Dir es) rel c \<and> nondirectory c}"
  proof -
    have "set (found ign r r (Dir es)) = (\<lambda>rel. r @ rel) ` {rel. \<exists>c. node_at (Dir es) rel c \<and> nondirectory c}"
      using s b by simp
    also have "\<dots> = {r @ rel | rel c. node_at (Dir es) rel c \<and> nondirectory c}" by blast
    finally show ?thesis .
  qed
  ultimately show "\<exists>fs. snd (scanFiles ign r (Dir es) tr) = Inr fs \<and> distinct fs \<and>
      set fs = {r @ rel | rel c. node_at (Dir es) rel c \<and> nondirectory c}"
    using d by blast
next
  assume "\<not> readable (Dir es)"
  then have "bad ign [] (Dir es)" using unreadable_bad[of ign "Dir es" "[]"] assms(2) by simp
  then have "outcome ign r (r @ []) (Dir es) \<noteq> None" unfolding outcome_None by simp
  then obtain e where "outcome ign r (r @ []) (Dir es) = Some e" by blast
  then have "snd (scanFiles ign r (Dir es) tr) = Inl e" by (simp add: scanFiles_eq)
  then show "\<exists>e. snd (scanFiles ign r (Dir es) tr) = Inl e" by blast
qed

text \<open>
  C6, at two inputs: a file at the root and a file in a subdirectory, both returned;
  and a root with an entry deleted after it was listed, where no list is returned.
\<close>

theorem scan_without_rules_complete_witness:
  "readable (Dir [(''a.txt'', File ''x''), (''src'', Dir [(''b.ts'', File ''y'')])])
   \<and> distinct_names (Dir [(''a.txt'', File ''x''), (''src'', Dir [(''b.ts'', File ''y'')])])
   \<and> snd (scanFiles (\<lambda>p. False) [''proj''] (Dir [(''a.txt'', File ''x''), (''src'', Dir [(''b.ts'', File ''y'')])]) [])
       = Inr [[''proj'', ''a.txt''], [''proj'', ''src'', ''b.ts'']]
   \<and> {[''proj''] @ rel | rel c. node_at (Dir [(''a.txt'', File ''x''), (''src'', Dir [(''b.ts'', File ''y'')])]) rel c \<and> nondirectory c}
       = {[''proj'', ''a.txt''], [''proj'', ''src'', ''b.ts'']}
   \<and> \<not> readable (Dir [(''b.txt'', File ''y''), (''lost'', NoStat ENOENT)])
   \<and> distinct_names (Dir [(''b.txt'', File ''y''), (''lost'', NoStat ENOENT)])
   \<and> (\<exists>e. snd (scanFiles (\<lambda>p. False) [''proj''] (Dir [(''b.txt'', File ''y''), (''lost'', NoStat ENOENT)]) []) = Inl e)"
proof -
  let ?t = "Dir [(''a.txt'', File ''x''), (''src'', Dir [(''b.ts'', File ''y'')])]"
  let ?u = "Dir [(''b.txt'', File ''y''), (''lost'', NoStat ENOENT)]"
  have 1: "readable ?t" by simp
  have 2: "distinct_names ?t" by simp
  have 3: "snd (scanFiles (\<lambda>p. False) [''proj''] ?t []) = Inr [[''proj'', ''a.txt''], [''proj'', ''src'', ''b.ts'']]"
    by (simp add: scan_eval)
  have F: "\<And>p. \<not> (\<lambda>p. False) p" by simp
  from scan_without_rules_complete[of "[(''a.txt'', File ''x''), (''src'', Dir [(''b.ts'', File ''y'')])]"
      "\<lambda>p. False" "[''proj'']" "[]", OF 2 F, THEN conjunct1, rule_format, OF 1]
  obtain fs where fs: "snd (scanFiles (\<lambda>p. False) [''proj''] ?t []) = Inr fs"
    "set fs = {[''proj''] @ rel | rel c. node_at ?t rel c \<and> nondirectory c}"
    by (elim exE conjE)
  from fs(1) 3 have "fs = [[''proj'', ''a.txt''], [''proj'', ''src'', ''b.ts'']]" by simp
  with fs(2) have 4: "{[''proj''] @ rel | rel c. node_at ?t rel c \<and> nondirectory c} = {[''proj'', ''a.txt''], [''proj'', ''src'', ''b.ts'']}"
    by simp
  have 5: "\<not> readable ?u" by simp
  have 6: "distinct_names ?u" by simp
  from scan_without_rules_complete[of "[(''b.txt'', File ''y''), (''lost'', NoStat ENOENT)]"
      "\<lambda>p. False" "[''proj'']" "[]", OF 6 F, THEN conjunct2, rule_format, OF 5]
  have 7: "\<exists>e. snd (scanFiles (\<lambda>p. False) [''proj''] ?u []) = Inl e" .
  from 1 2 3 4 5 6 7 show ?thesis by (intro conjI)
qed

text \<open>
  C6 as stated fails, in two ways. With no ignore rule and a directory that cannot be
  listed, the scan returns no list, although a regular file lies under the root. And
  with a socket under the root, the scan returns the path of the socket, which is not
  a regular file.
\<close>

theorem scan_without_rules_not_the_regular_files:
  "snd (scanFiles (\<lambda>p. False) [''proj''] (Dir [(''a.txt'', File ''x''), (''secret'', NoRead EACCES)]) []) = Inl EACCES
   \<and> node_at (Dir [(''a.txt'', File ''x''), (''secret'', NoRead EACCES)]) [''a.txt''] (File ''x'')
   \<and> regular (File ''x'')
   \<and> snd (scanFiles (\<lambda>p. False) [''proj''] (Dir [(''a.txt'', File ''x''), (''ctl.sock'', Socket)]) [])
       = Inr [[''proj'', ''a.txt''], [''proj'', ''ctl.sock'']]
   \<and> node_at (Dir [(''a.txt'', File ''x''), (''ctl.sock'', Socket)]) [''ctl.sock''] Socket
   \<and> \<not> regular Socket"
  by (simp add: scan_eval regular_def)

text \<open>
  C8. The result of a scan does not depend on what an earlier scan left behind: a
  second scan of the same tree with the same matcher returns what the first returned.
  When the second scan finds directories listed in another order, both scans fail or
  both return lists with the same members.
\<close>

theorem consecutive_scans_agree:
  "snd (scanFiles ign r nd (fst (scanFiles ign r nd tr))) = snd (scanFiles ign r nd tr)
   \<and> (relisted nd nd' \<longrightarrow>
        (case (snd (scanFiles ign r nd tr), snd (scanFiles ign r nd' (fst (scanFiles ign r nd tr)))) of
           (Inr fs, Inr fs') \<Rightarrow> set fs = set fs'
         | (Inl e, Inl e') \<Rightarrow> True
         | _ \<Rightarrow> False))"
proof (intro conjI impI)
  show "snd (scanFiles ign r nd (fst (scanFiles ign r nd tr))) = snd (scanFiles ign r nd tr)"
    by (simp add: scanFiles_eq)
next
  assume "relisted nd nd'"
  then have a: "alike nd nd'" by (rule relisted_alike)
  have o: "(outcome ign r (r @ []) nd = None) = (outcome ign r (r @ []) nd' = None)"
    unfolding outcome_None using a unfolding alike_def by (cases "readdir nd"; cases "readdir nd'") auto
  show "case (snd (scanFiles ign r nd tr), snd (scanFiles ign r nd' (fst (scanFiles ign r nd tr)))) of
           (Inr fs, Inr fs') \<Rightarrow> set fs = set fs'
         | (Inl e, Inl e') \<Rightarrow> True
         | _ \<Rightarrow> False"
  proof (cases "outcome ign r (r @ []) nd")
    case None
    then have n': "outcome ign r (r @ []) nd' = None" using o by simp
    have "set (found ign r (r @ []) nd) = set (found ign r (r @ []) nd')"
      unfolding found_set[OF None] found_set[OF n'] using a unfolding alike_def by simp
    then show ?thesis using None n' by (simp add: scanFiles_eq)
  next
    case (Some e)
    then obtain e' where "outcome ign r (r @ []) nd' = Some e'" using o by (cases "outcome ign r (r @ []) nd'") auto
    then show ?thesis using Some by (simp add: scanFiles_eq)
  qed
qed

text \<open>
  C8, at an input: the second scan finds the two entries of the root in the other
  order; both scans return the same two files.
\<close>

theorem consecutive_scans_agree_witness:
  "relisted (Dir [(''a.txt'', File ''x''), (''b.txt'', File ''y'')]) (Dir [(''b.txt'', File ''y''), (''a.txt'', File ''x'')])
   \<and> snd (scanFiles (\<lambda>p. False) [''proj''] (Dir [(''a.txt'', File ''x''), (''b.txt'', File ''y'')]) [])
       = Inr [[''proj'', ''a.txt''], [''proj'', ''b.txt'']]
   \<and> (\<exists>fs'. snd (scanFiles (\<lambda>p. False) [''proj''] (Dir [(''b.txt'', File ''y''), (''a.txt'', File ''x'')])
          (fst (scanFiles (\<lambda>p. False) [''proj''] (Dir [(''a.txt'', File ''x''), (''b.txt'', File ''y'')]) []))) = Inr fs'
        \<and> set fs' = {[''proj'', ''a.txt''], [''proj'', ''b.txt'']})"
proof -
  let ?t = "Dir [(''a.txt'', File ''x''), (''b.txt'', File ''y'')]"
  let ?t' = "Dir [(''b.txt'', File ''y''), (''a.txt'', File ''x'')]"
  have 1: "relisted ?t ?t'"
    using relisted_swap[of "[]" "(''a.txt'', File ''x'')" "(''b.txt'', File ''y'')" "[]"] by simp
  have 2: "snd (scanFiles (\<lambda>p. False) [''proj''] ?t []) = Inr [[''proj'', ''a.txt''], [''proj'', ''b.txt'']]"
    by (simp add: scan_eval)
  from consecutive_scans_agree[of "\<lambda>p. False" "[''proj'']" ?t "[]" ?t', THEN conjunct2] 1
  have "case (snd (scanFiles (\<lambda>p. False) [''proj''] ?t []),
              snd (scanFiles (\<lambda>p. False) [''proj''] ?t' (fst (scanFiles (\<lambda>p. False) [''proj''] ?t [])))) of
           (Inr fs, Inr fs') \<Rightarrow> set fs = set fs'
         | (Inl e, Inl e') \<Rightarrow> True
         | _ \<Rightarrow> False" by blast
  then have 3: "\<exists>fs'. snd (scanFiles (\<lambda>p. False) [''proj''] ?t' (fst (scanFiles (\<lambda>p. False) [''proj''] ?t []))) = Inr fs'
        \<and> set fs' = {[''proj'', ''a.txt''], [''proj'', ''b.txt'']}"
    unfolding 2 by (cases "snd (scanFiles (\<lambda>p. False) [''proj''] ?t' (fst (scanFiles (\<lambda>p. False) [''proj''] ?t [])))") auto
  from 1 2 3 show ?thesis by (intro conjI)
qed

text \<open>
  C9. For every tree whose names are valid, every string a scan passes to the matcher
  is the path of an entry of the tree relative to the project root: it is not empty
  and does not start with the separator. The strings passed, in order, are the same
  wherever the project root lies.
\<close>

theorem matcher_queries_root_relative:
  assumes "valid_names nd"
  shows "(Query q \<in> set (fst (scanFiles ign r nd [])) \<longrightarrow>
            q \<noteq> [] \<and> hd q \<noteq> CHR ''/'' \<and>
            (\<exists>rel c. rel \<noteq> [] \<and> node_at nd rel c \<and> q = path_relative r (r @ rel)))
         \<and> queries (fst (scanFiles ign r nd [])) = queries (fst (scanFiles ign r' nd []))"
proof (intro conjI impI)
  assume "Query q \<in> set (fst (scanFiles ign r nd []))"
  then have "Query q \<in> set (events ign r (r @ []) nd)" by (simp add: scanFiles_eq)
  from events_query[OF this] obtain rel c where rel: "rel \<noteq> []" "node_at nd rel c" "q = path_string ([] @ rel)"
    by (elim exE conjE)
  have "list_all valid_name rel" using valid_names_at[OF assms rel(2)] .
  then have v: "valid_name (hd rel)" using rel(1) by (cases rel) simp_all
  then have h1: "hd rel \<noteq> []" by (simp add: valid_name_def)
  have h2: "hd (hd rel) \<noteq> CHR ''/''"
  proof
    assume "hd (hd rel) = CHR ''/''"
    moreover have "hd (hd rel) \<in> set (hd rel)" using h1 by simp
    ultimately have "CHR ''/'' \<in> set (hd rel)" by simp
    then show False using v by (simp add: valid_name_def)
  qed
  from path_string_head[OF rel(1) h1] h2 rel(3)
  show "q \<noteq> []" and "hd q \<noteq> CHR ''/''" by simp_all
  have "rel \<noteq> [] \<and> node_at nd rel c \<and> q = path_relative r (r @ rel)" using rel by simp
  then show "\<exists>rel c. rel \<noteq> [] \<and> node_at nd rel c \<and> q = path_relative r (r @ rel)" by blast
next
  show "queries (fst (scanFiles ign r nd [])) = queries (fst (scanFiles ign r' nd []))"
    using queries_root[of ign r nd r'] by (simp add: scanFiles_eq)
qed

text \<open>
  C9, at an input: the same tree under \<^verbatim>\<open>/home/u/proj\<close> and under \<^verbatim>\<open>/tmp\<close>; the matcher
  is asked about \<^verbatim>\<open>src\<close> and \<^verbatim>\<open>src/b.ts\<close> both times.
\<close>

theorem matcher_queries_root_relative_witness:
  "valid_names (Dir [(''src'', Dir [(''b.ts'', File ''y'')])])
   \<and> queries (fst (scanFiles (\<lambda>p. False) [''home'', ''u'', ''proj''] (Dir [(''src'', Dir [(''b.ts'', File ''y'')])]) []))
       = [''src'', ''src/b.ts'']
   \<and> queries (fst (scanFiles (\<lambda>p. False) [''tmp''] (Dir [(''src'', Dir [(''b.ts'', File ''y'')])]) []))
       = [''src'', ''src/b.ts'']
   \<and> hd ''src/b.ts'' \<noteq> CHR ''/''"
proof -
  let ?t = "Dir [(''src'', Dir [(''b.ts'', File ''y'')])]"
  have 1: "valid_names ?t" by (simp add: valid_name_def)
  have 2: "queries (fst (scanFiles (\<lambda>p. False) [''home'', ''u'', ''proj''] ?t [])) = [''src'', ''src/b.ts'']"
    by (simp add: scan_eval)
  have 3: "Query ''src/b.ts'' \<in> set (fst (scanFiles (\<lambda>p. False) [''home'', ''u'', ''proj''] ?t []))"
    by (simp add: scan_eval)
  note T = matcher_queries_root_relative[OF 1, of "''src/b.ts''" "\<lambda>p. False" "[''home'', ''u'', ''proj'']" "[''tmp'']"]
  from T[THEN conjunct1] 3 have 4: "hd ''src/b.ts'' \<noteq> CHR ''/''" by blast
  from T[THEN conjunct2] 2
  have 5: "queries (fst (scanFiles (\<lambda>p. False) [''tmp''] ?t [])) = [''src'', ''src/b.ts'']"
    by (simp only:)
  from 1 2 5 4 show ?thesis by (intro conjI)
qed

subsection \<open>The options\<close>

text \<open>
  C10. \<^verbatim>\<open>mergeDefaultOptions\<close>: an explicit compression level 0 is replaced by the
  default 6, a level from 1 to 9 is kept, and an explicitly empty output path or
  output name is replaced by its default.
\<close>

theorem mergeDefaultOptions_falsy:
  "compressionLevel' (mergeDefaultOptions (opts \<lparr> compressionLevel := Some (Num 0) \<rparr>)) = Num 6
   \<and> (1 \<le> c \<and> c \<le> 9 \<longrightarrow>
        compressionLevel' (mergeDefaultOptions (opts \<lparr> compressionLevel := Some (Num c) \<rparr>)) = Num c)
   \<and> outputPath' (mergeDefaultOptions (opts \<lparr> outputPath := Some [] \<rparr>)) = ''./dist''
   \<and> outputName' (mergeDefaultOptions (opts \<lparr> outputName := Some [] \<rparr>)) = ''project.zip''"
  by (simp add: mergeDefaultOptions_def)

text \<open>C10, at an input: level 9 is kept, level 0 becomes 6.\<close>

theorem mergeDefaultOptions_falsy_witness:
  "(1::real) \<le> 9 \<and> (9::real) \<le> 9
   \<and> compressionLevel' (mergeDefaultOptions
        \<lparr> outputPath = Some ''out'', outputName = None, includeHidden = None,
          compressionLevel = Some (Num 9) \<rparr>) = Num 9
   \<and> compressionLevel' (mergeDefaultOptions
        \<lparr> outputPath = Some ''out'', outputName = None, includeHidden = None,
          compressionLevel = Some (Num 0) \<rparr>) = Num 6"
  using mergeDefaultOptions_falsy
    [of "\<lparr> outputPath = Some ''out'', outputName = None, includeHidden = None,
           compressionLevel = None \<rparr>" 9]
  by simp

end
